theory Spec2Isabelle
  imports Main "HOL-Library.Word"
begin

unbundle bit_operations_syntax

section \<open>rolexhound.c: constants and types\<close>

text \<open>
  The program watches one path with inotify and raises a desktop notification for each
  event. Bytes are \<open>8 word\<close>, the fields of \<open>struct inotify_event\<close> are \<open>32 word\<close>,
  exit statuses and file descriptors are \<open>int\<close>. A C string is the list of its bytes
  before the terminating NUL.
\<close>

type_synonym byte = "8 word"
type_synonym u32 = "32 word"

definition EXT_SUCCESS :: int where "EXT_SUCCESS = 0"
definition EXT_ERR_TOO_FEW_ARGS :: int where "EXT_ERR_TOO_FEW_ARGS = 1"
definition EXT_ERR_INIT_INOTIFY :: int where "EXT_ERR_INIT_INOTIFY = 2"
definition EXT_ERR_ADD_WATCH :: int where "EXT_ERR_ADD_WATCH = 3"
definition EXT_ERR_BASE_PATH_NULL :: int where "EXT_ERR_BASE_PATH_NULL = 4"
definition EXT_ERR_READ_INOTIFY :: int where "EXT_ERR_READ_INOTIFY = 5"
definition EXT_ERR_INIT_LIBNOTIFY :: int where "EXT_ERR_INIT_LIBNOTIFY = 6"

definition ProgramTitle :: string where "ProgramTitle = ''rolexhound''"

text \<open>
  The event flags are macros of \<open><sys/inotify.h>\<close>, which the source includes; the
  values are those of the Linux header. Each is a single bit.
\<close>

definition IN_ACCESS :: u32 where "IN_ACCESS = 0x001"
definition IN_MODIFY :: u32 where "IN_MODIFY = 0x002"
definition IN_CLOSE_WRITE :: u32 where "IN_CLOSE_WRITE = 0x008"
definition IN_CREATE :: u32 where "IN_CREATE = 0x100"
definition IN_DELETE :: u32 where "IN_DELETE = 0x200"
definition IN_MOVE_SELF :: u32 where "IN_MOVE_SELF = 0x800"

definition watch_flags :: u32 where
  "watch_flags = IN_CREATE OR IN_DELETE OR IN_ACCESS OR IN_CLOSE_WRITE OR IN_MODIFY OR IN_MOVE_SELF"

section \<open>Classification of an event mask (lines 150-179)\<close>

text \<open>
  The loop body sets \<open>notificationMessage\<close> to NULL and then runs six independent
  \<open>if\<close> statements, each of which overwrites it. The pointer ends up with one of
  seven values; \<open>EventCategory\<close> names them and \<open>category_message\<close> gives the string
  literal of each (\<open>None\<close> for NULL).
\<close>

datatype EventCategory =
  Created | Deleted | Accessed | WrittenAndClosed | Modified | MovedSelf | Ignored

definition category_message :: "EventCategory \<Rightarrow> string option" where
  "category_message c =
     (case c of
        Created \<Rightarrow> Some ''File created.\<newline>''
      | Deleted \<Rightarrow> Some ''File deleted.\<newline>''
      | Accessed \<Rightarrow> Some ''File accessed.\<newline>''
      | WrittenAndClosed \<Rightarrow> Some ''File written and closed.\<newline>''
      | Modified \<Rightarrow> Some ''File modified.\<newline>''
      | MovedSelf \<Rightarrow> Some ''File moved.\<newline>''
      | Ignored \<Rightarrow> None)"

definition classify :: "u32 \<Rightarrow> EventCategory" where
  "classify m =
     (let c0 = Ignored;
          c1 = (if m AND IN_CREATE \<noteq> 0 then Created else c0);
          c2 = (if m AND IN_DELETE \<noteq> 0 then Deleted else c1);
          c3 = (if m AND IN_ACCESS \<noteq> 0 then Accessed else c2);
          c4 = (if m AND IN_CLOSE_WRITE \<noteq> 0 then WrittenAndClosed else c3);
          c5 = (if m AND IN_MODIFY \<noteq> 0 then Modified else c4);
          c6 = (if m AND IN_MOVE_SELF \<noteq> 0 then MovedSelf else c5)
      in c6)"

text \<open>
  The spec's classifier, for comparison: the first match in the order Created, Deleted,
  Accessed, WrittenAndClosed, Modified, MovedSelf.
\<close>

definition spec_classify :: "u32 \<Rightarrow> EventCategory" where
  "spec_classify m =
     (if m AND IN_CREATE \<noteq> 0 then Created
      else if m AND IN_DELETE \<noteq> 0 then Deleted
      else if m AND IN_ACCESS \<noteq> 0 then Accessed
      else if m AND IN_CLOSE_WRITE \<noteq> 0 then WrittenAndClosed
      else if m AND IN_MODIFY \<noteq> 0 then Modified
      else if m AND IN_MOVE_SELF \<noteq> 0 then MovedSelf
      else Ignored)"

section \<open>The display name (lines 117-129)\<close>

text \<open>
  \<open>strtok\<close> with the delimiter set \<open>"/"\<close>, on the text from its saved position to the
  terminator: it skips leading separators; if nothing is left it returns NULL; otherwise
  the token runs to the next separator, which it overwrites with NUL, and the saved
  position is the byte after it (or the terminator, when the token ended the string).
  The result is the token and the text from the new saved position.
\<close>

definition is_sep :: "char \<Rightarrow> bool" where
  "is_sep c = (c = CHR ''/'')"

definition strtok :: "string \<Rightarrow> (string \<times> string) option" where
  "strtok s =
     (let s1 = dropWhile is_sep s
      in if s1 = [] then None
         else Some (takeWhile (\<lambda>c. \<not> is_sep c) s1,
                    drop 1 (dropWhile (\<lambda>c. \<not> is_sep c) s1)))"

text \<open>
  The loop \<open>while (token != NULL) { basePath = token; token = strtok(NULL, "/"); }\<close>.
  \<open>basePath\<close> is a pointer and may be NULL (\<open>None\<close>); the token carries the text that
  the next \<open>strtok(NULL, "/")\<close> continues from.
\<close>

function token_loop :: "string option \<Rightarrow> (string \<times> string) option \<Rightarrow> string option" where
  "token_loop basePath None = basePath"
| "token_loop basePath (Some (tok, rest)) = token_loop (Some tok) (strtok rest)"
  by pat_completeness auto
termination
proof (relation "measure (\<lambda>(b, t). case t of None \<Rightarrow> 0 | Some (tok, rest) \<Rightarrow> Suc (length rest))")
  show "wf (measure (\<lambda>(b, t). case t of None \<Rightarrow> 0 | Some (tok, rest) \<Rightarrow> Suc (length rest)))"
    by simp
next
  fix basePath :: "string option" and tok rest :: string
  have "strtok rest = None \<or> (\<exists>t r. strtok rest = Some (t, r) \<and> length r < length rest)"
  proof (cases "dropWhile is_sep rest")
    case Nil
    then show ?thesis by (simp add: strtok_def)
  next
    case (Cons x xs)
    then have nx: "\<not> is_sep x"
      by (metis hd_dropWhile list.distinct(1) list.sel(1))
    have "length (dropWhile (\<lambda>c. \<not> is_sep c) xs) \<le> length xs"
      by (rule length_dropWhile_le)
    moreover have "Suc (length xs) \<le> length rest"
      using length_dropWhile_le [of is_sep rest] Cons by simp
    ultimately show ?thesis
      using Cons nx by (simp add: strtok_def)
  qed
  then show "((Some tok, strtok rest), (basePath, Some (tok, rest)))
      \<in> measure (\<lambda>(b, t). case t of None \<Rightarrow> 0 | Some (tok, rest) \<Rightarrow> Suc (length rest))"
    by auto
qed

definition display_name :: "string \<Rightarrow> string option" where
  "display_name path = token_loop (Some path) (strtok path)"

section \<open>The read buffer and the event header\<close>

text \<open>
  The memory from the start of \<open>char buffer[4096]\<close> on is a function from offsets to
  bytes: the offsets below \<open>sizeof(buffer)\<close> are the array, the others the memory
  behind it, which the model takes as given. A successful \<open>read\<close> of \<open>n\<close> bytes
  overwrites the offsets below \<open>n\<close> and leaves the rest as it was.
\<close>

definition BUFFER_SIZE :: nat where "BUFFER_SIZE = 4096"

definition store_bytes :: "byte list \<Rightarrow> (nat \<Rightarrow> byte) \<Rightarrow> (nat \<Rightarrow> byte)" where
  "store_bytes data buffer = (\<lambda>i. if i < length data then data ! i else buffer i)"

text \<open>
  \<open>struct inotify_event\<close> of \<open><sys/inotify.h>\<close>: \<open>int wd; uint32_t mask; uint32_t cookie;
  uint32_t len; char name[];\<close>, so \<open>sizeof(struct inotify_event)\<close> is 16 and the fields
  lie at the offsets 0, 4, 8 and 12. Fields are read in the byte order of the usual
  Linux targets (little-endian).
\<close>

record inotify_event =
  wd :: u32
  mask_f :: u32
  cookie :: u32
  len :: u32

definition SIZEOF_EVENT :: nat where "SIZEOF_EVENT = 16"

definition u32_at :: "(nat \<Rightarrow> byte) \<Rightarrow> nat \<Rightarrow> u32" where
  "u32_at m p =
     ucast (m p) OR push_bit 8 (ucast (m (p + 1))) OR
     push_bit 16 (ucast (m (p + 2))) OR push_bit 24 (ucast (m (p + 3)))"

datatype fault = NullPointer

text \<open>
  \<open>watchEvent = (const struct inotify_event *) buffPointer\<close> followed by the reads of
  \<open>watchEvent->mask\<close> and \<open>watchEvent->len\<close>. The source checks nothing here: the
  header is taken from the 16 bytes at the cursor, whether they lie below the length
  that \<open>read\<close> returned or not, and whether they lie in the array or behind it.
\<close>

definition watchEvent_at :: "(nat \<Rightarrow> byte) \<Rightarrow> nat \<Rightarrow> inotify_event" where
  "watchEvent_at buffer p =
     \<lparr>wd = u32_at buffer p, mask_f = u32_at buffer (p + 4),
      cookie = u32_at buffer (p + 8), len = u32_at buffer (p + 12)\<rparr>"

section \<open>The outside world\<close>

datatype signal = SIGABRT | SIGINT | SIGTERM

datatype call =
    NotifyInit string
  | InotifyInit
  | InotifyAddWatch int string u32
  | SignalHandler signal
  | Malloc nat
  | Read int nat
  | NotificationNew string string string
  | NotificationSetUrgency
  | NotificationShow
  | InotifyRmWatch int int
  | Close int
  | NotifyUninit

text \<open>
  What the program has done so far: the lines written to the two streams, the library
  and system calls in order, the event headers the loop body has seen (with the offset
  of each), and the number of calls of \<open>notify_notification_new\<close>.
\<close>

record world =
  stdout :: "string list"
  stderr :: "string list"
  calls :: "call list"
  events :: "(nat \<times> inotify_event) list"
  notified :: nat

definition world0 :: world where
  "world0 = \<lparr>stdout = [], stderr = [], calls = [], events = [], notified = 0\<rparr>"

definition do_call :: "call \<Rightarrow> world \<Rightarrow> world" where
  "do_call c w = w\<lparr>calls := calls w @ [c]\<rparr>"

definition print_out :: "string \<Rightarrow> world \<Rightarrow> world" where
  "print_out s w = w\<lparr>stdout := stdout w @ [s]\<rparr>"

definition print_err :: "string \<Rightarrow> world \<Rightarrow> world" where
  "print_err s w = w\<lparr>stderr := stderr w @ [s]\<rparr>"

text \<open>
  The notification library answers each \<open>notify_notification_new\<close> with NULL or with
  a handle, and each \<open>notify_notification_show\<close> with failure or success.
\<close>

datatype sink_result = NullHandle | ShowFailed | Shown

datatype read_result = ReadError | ReadBytes "byte list"

record env =
  notify_init_ret :: bool
  inotify_init_ret :: int
  inotify_add_watch_ret :: int
  malloc_ok :: bool
  stack_buffer :: "nat \<Rightarrow> byte"
  reads :: "read_result list"
  sink :: "nat \<Rightarrow> sink_result"

section \<open>The loop over one buffer (lines 147-188)\<close>

text \<open>
  \<open>p\<close> is \<open>buffPointer - buffer\<close>. The loop runs while \<open>p < readLength\<close>; every path
  through the body, the two \<open>continue\<close>s included, ends in the increment
  \<open>buffPointer += sizeof(struct inotify_event) + watchEvent->len\<close>.
\<close>

function event_loop ::
  "(nat \<Rightarrow> sink_result) \<Rightarrow> string \<Rightarrow> (nat \<Rightarrow> byte) \<Rightarrow> nat \<Rightarrow> nat \<Rightarrow> world \<Rightarrow> world"
where
  "event_loop snk basePath buffer readLength p w =
     (if p < readLength then
        (let watchEvent = watchEvent_at buffer p;
             w1 = w\<lparr>events := events w @ [(p, watchEvent)]\<rparr>;
             p' = p + SIZEOF_EVENT + unat (len watchEvent)
         in (case category_message (classify (mask_f watchEvent)) of
               None \<Rightarrow> event_loop snk basePath buffer readLength p' w1
             | Some notificationMessage \<Rightarrow>
                 let w2 = (do_call (NotificationNew basePath notificationMessage
                             ''dialog-information'') w1)\<lparr>notified := Suc (notified w1)\<rparr>
                 in (case snk (notified w1) of
                       NullHandle \<Rightarrow>
                         event_loop snk basePath buffer readLength p'
                           (print_err ''Got a null notify handle!\<newline>'' w2)
                     | _ \<Rightarrow>
                         event_loop snk basePath buffer readLength p'
                           (do_call NotificationShow (do_call NotificationSetUrgency w2)))))
      else w)"
  by pat_completeness auto
termination
  by (relation "measure (\<lambda>(snk, basePath, buffer, readLength, p, w). readLength - p)")
     (auto simp: SIZEOF_EVENT_def)

declare event_loop.simps [simp del]

section \<open>The daemon loop and main (lines 62-190)\<close>

text \<open>
  How a run ends: \<open>exit\<close> with a status, blocked for ever in \<open>read\<close>, or the write
  through a null pointer after a failed \<open>malloc\<close> (\<open>Faulted\<close>, with the world up to
  there).
\<close>

datatype outcome = Exited int world | Blocked world | Faulted fault world

text \<open>
  \<open>while (true)\<close> around the blocking \<open>read\<close>. The reads that return are the list
  \<open>reads\<close> of the environment; after the last one the process stays blocked in
  \<open>read\<close> (\<open>Blocked\<close>). \<open>read\<close> returns at most \<open>sizeof(buffer)\<close> bytes.
\<close>

fun main_loop ::
  "(nat \<Rightarrow> sink_result) \<Rightarrow> string \<Rightarrow> int \<Rightarrow> read_result list \<Rightarrow> (nat \<Rightarrow> byte) \<Rightarrow> world \<Rightarrow> outcome"
where
  "main_loop snk basePath q [] buffer w =
     Blocked (do_call (Read q BUFFER_SIZE) (print_out ''Waiting for ievent...\<newline>'' w))"
| "main_loop snk basePath q (r # rs) buffer w =
     (let w1 = do_call (Read q BUFFER_SIZE) (print_out ''Waiting for ievent...\<newline>'' w)
      in case r of
           ReadError \<Rightarrow>
             Exited EXT_ERR_READ_INOTIFY (print_err ''Error reading from inotify event!\<newline>'' w1)
         | ReadBytes bytes \<Rightarrow>
             let data = take BUFFER_SIZE bytes;
                 buffer' = store_bytes data buffer
             in main_loop snk basePath q rs buffer'
                  (event_loop snk basePath buffer' (length data) 0 w1))"

text \<open>
  \<open>main\<close>. \<open>argc\<close> is the length of \<open>argv\<close>. \<open>malloc\<close> may return NULL, and then
  \<open>strcpy\<close> writes through a null pointer (\<open>NullPointer\<close>). Signals are not part
  of a run of \<open>main\<close> here; what the handler does when one arrives is modelled on its
  own in the next section.
\<close>

definition main :: "string list \<Rightarrow> env \<Rightarrow> outcome" where
  "main argv e =
     (if length argv < 2 then
        Exited EXT_ERR_TOO_FEW_ARGS
          (print_err (''USAGE: '' @ ProgramTitle @ '' PATH\<newline>'') world0)
      else
        let w1 = do_call (NotifyInit ProgramTitle) world0 in
        if \<not> notify_init_ret e then
          Exited EXT_ERR_INIT_LIBNOTIFY (print_err ''Error initialising with libnotify!\<newline>'' w1)
        else
          let IeventQueue = inotify_init_ret e;
              w2 = do_call InotifyInit w1 in
          if IeventQueue = -1 then
            Exited EXT_ERR_INIT_INOTIFY (print_err ''Error initialising event queue!\<newline>'' w2)
          else
            let IeventDescriptor = inotify_add_watch_ret e;
                w3 = do_call (InotifyAddWatch IeventQueue (argv ! 1) watch_flags) w2 in
            if IeventDescriptor = -1 then
              Exited EXT_ERR_ADD_WATCH (print_err ''Error adding file to inotify watch!\<newline>'' w3)
            else
              let w4 = do_call (SignalHandler SIGTERM)
                         (do_call (SignalHandler SIGINT) (do_call (SignalHandler SIGABRT) w3));
                  w5 = do_call (Malloc (length (argv ! 1) + 1)) w4 in
              if \<not> malloc_ok e then Faulted NullPointer w5
              else
                (case display_name (argv ! 1) of
                   None \<Rightarrow>
                     Exited EXT_ERR_BASE_PATH_NULL (print_err ''Error getting base file path!\<newline>'' w5)
                 | Some basePath \<Rightarrow>
                     main_loop (sink e) basePath IeventQueue (reads e) (stack_buffer e) w5))"

section \<open>The shutdown handler (lines 44-60, registered in lines 111-113)\<close>

text \<open>
  The state of the running process as the handler sees it: the two globals, the
  kernel's view of the descriptors (the open file descriptors, and the watches as pairs
  of queue and watch descriptor), the notification library, the two streams, the value
  returned by each \<open>inotify_rm_watch\<close> and \<open>close\<close> so far, the handler activations
  that have started and not finished (innermost first), and the exit status once
  \<open>exit\<close> has been called.
\<close>

record frame =
  pc :: nat
  closeStatus :: int
  handled :: signal

record process =
  IeventQueue :: int
  IeventDescriptor :: int
  open_fds :: "int set"
  watches :: "(int \<times> int) set"
  notify_up :: bool
  p_stdout :: "string list"
  p_stderr :: "string list"
  rm_watch_rets :: "int list"
  close_rets :: "int list"
  frames :: "frame list"
  exit_status :: "int option"

text \<open>
  The kernel's side of the two calls: \<open>inotify_rm_watch\<close> returns 0 and removes the
  watch when the queue is open and holds it, and -1 otherwise; \<open>close\<close> returns 0 and
  releases the descriptor, with the watches it holds, when it is open, and -1 otherwise.
\<close>

definition inotify_rm_watch :: "int \<Rightarrow> int \<Rightarrow> process \<Rightarrow> int \<times> process" where
  "inotify_rm_watch fd w P =
     (if fd \<in> open_fds P \<and> (fd, w) \<in> watches P
      then (0, P\<lparr>watches := watches P - {(fd, w)}, rm_watch_rets := rm_watch_rets P @ [0]\<rparr>)
      else (-1, P\<lparr>rm_watch_rets := rm_watch_rets P @ [-1]\<rparr>))"

definition close_fd :: "int \<Rightarrow> process \<Rightarrow> int \<times> process" where
  "close_fd fd P =
     (if fd \<in> open_fds P
      then (0, P\<lparr>open_fds := open_fds P - {fd},
                  watches := {x \<in> watches P. fst x \<noteq> fd},
                  close_rets := close_rets P @ [0]\<rparr>)
      else (-1, P\<lparr>close_rets := close_rets P @ [-1]\<rparr>))"

text \<open>
  One statement of \<open>sig_shutdown_handler\<close>, for the activation \<open>f\<close> on top of the
  others \<open>fs\<close>: 0 the \<open>printf\<close>, 1 \<open>inotify_rm_watch\<close>, 2 the test of \<open>closeStatus\<close>,
  3 \<open>close\<close>, 4 \<open>notify_uninit\<close>, 5 \<open>exit(EXT_SUCCESS)\<close>.
\<close>

definition sig_shutdown_handler_step :: "frame \<Rightarrow> frame list \<Rightarrow> process \<Rightarrow> process" where
  "sig_shutdown_handler_step f fs P =
     (if pc f = 0 then
        P\<lparr>p_stdout := p_stdout P @
             [''Exit signal received!\<newline>closing inotify descriptors...\<newline>''],
           frames := f\<lparr>pc := 1\<rparr> # fs\<rparr>
      else if pc f = 1 then
        (let (r, P1) = inotify_rm_watch (IeventQueue P) (IeventDescriptor P) P
         in P1\<lparr>frames := f\<lparr>pc := 2, closeStatus := r\<rparr> # fs\<rparr>)
      else if pc f = 2 then
        (if closeStatus f = -1
         then P\<lparr>p_stderr := p_stderr P @ [''Error removing file from inotify watch!\<newline>''],
                frames := f\<lparr>pc := 3\<rparr> # fs\<rparr>
         else P\<lparr>frames := f\<lparr>pc := 3\<rparr> # fs\<rparr>)
      else if pc f = 3 then
        (let (r, P1) = close_fd (IeventQueue P) P
         in P1\<lparr>frames := f\<lparr>pc := 4\<rparr> # fs\<rparr>)
      else if pc f = 4 then
        P\<lparr>notify_up := False, frames := f\<lparr>pc := 5\<rparr> # fs\<rparr>
      else
        P\<lparr>exit_status := Some EXT_SUCCESS\<rparr>)"

text \<open>
  What can happen next to the process. \<open>Deliver s\<close>: the signal \<open>s\<close>, one of the three
  that \<open>main\<close> has bound to the handler, arrives; a new activation of the handler starts
  on top of whatever was running, unless the handler for \<open>s\<close> itself is running (a
  signal is blocked while its own handler runs). \<open>Step\<close>: the innermost activation
  runs its next statement. After \<open>exit\<close> nothing happens any more.
\<close>

datatype action = Deliver signal | Step

definition exec :: "action \<Rightarrow> process \<Rightarrow> process" where
  "exec a P =
     (if exit_status P \<noteq> None then P
      else case a of
        Deliver s \<Rightarrow>
          (if s \<in> handled ` set (frames P) then P
           else P\<lparr>frames := \<lparr>pc = 0, closeStatus = 0, handled = s\<rparr> # frames P\<rparr>)
      | Step \<Rightarrow>
          (case frames P of
             [] \<Rightarrow> P
           | f # fs \<Rightarrow> sig_shutdown_handler_step f fs P))"

definition run :: "action list \<Rightarrow> process \<Rightarrow> process" where
  "run as P = fold exec as P"


section \<open>Decoding and notifying taken apart\<close>

text \<open>
  For the proofs the loop over one buffer is split into the walk over the headers,
  \<open>scan\<close>, and the treatment of each header, \<open>notify_all\<close>; \<open>event_loop_split\<close> below
  shows that \<open>event_loop\<close> is the two together.
\<close>

function scan :: "(nat \<Rightarrow> byte) \<Rightarrow> nat \<Rightarrow> nat \<Rightarrow> (nat \<times> inotify_event) list" where
  "scan buffer readLength p =
     (if p < readLength then
        (p, watchEvent_at buffer p) #
          scan buffer readLength (p + SIZEOF_EVENT + unat (len (watchEvent_at buffer p)))
      else [])"
  by pat_completeness auto
termination
  by (relation "measure (\<lambda>(buffer, readLength, p). readLength - p)")
     (auto simp: SIZEOF_EVENT_def)

declare scan.simps [simp del]

definition notify_one ::
  "(nat \<Rightarrow> sink_result) \<Rightarrow> string \<Rightarrow> nat \<times> inotify_event \<Rightarrow> world \<Rightarrow> world" where
  "notify_one snk basePath e w =
     (let w1 = w\<lparr>events := events w @ [e]\<rparr>
      in case category_message (classify (mask_f (snd e))) of
           None \<Rightarrow> w1
         | Some notificationMessage \<Rightarrow>
             let w2 = (do_call (NotificationNew basePath notificationMessage
                         ''dialog-information'') w1)\<lparr>notified := Suc (notified w1)\<rparr>
             in (case snk (notified w1) of
                   NullHandle \<Rightarrow> print_err ''Got a null notify handle!\<newline>'' w2
                 | _ \<Rightarrow> do_call NotificationShow (do_call NotificationSetUrgency w2)))"

fun notify_all ::
  "(nat \<Rightarrow> sink_result) \<Rightarrow> string \<Rightarrow> (nat \<times> inotify_event) list \<Rightarrow> world \<Rightarrow> world" where
  "notify_all snk basePath [] w = w"
| "notify_all snk basePath (e # es) w = notify_all snk basePath es (notify_one snk basePath e w)"

text \<open>The titles and messages handed to \<open>notify_notification_new\<close>, in order.\<close>

fun notifications :: "call list \<Rightarrow> (string \<times> string) list" where
  "notifications [] = []"
| "notifications (NotificationNew t m i # cs) = (t, m) # notifications cs"
| "notifications (c # cs) = notifications cs"

fun outcome_world :: "outcome \<Rightarrow> world" where
  "outcome_world (Exited n w) = w"
| "outcome_world (Blocked w) = w"
| "outcome_world (Faulted f w) = w"

text \<open>
  A well-formed record as the kernel writes it: the 16-byte header, with \<open>len\<close> the
  length of the name field, followed by the name field (the name with its padding).
\<close>

record event_record =
  r_wd :: u32
  r_mask :: u32
  r_cookie :: u32
  r_name :: "byte list"

definition u32_bytes :: "u32 \<Rightarrow> byte list" where
  "u32_bytes x = [ucast x, ucast (drop_bit 8 x), ucast (drop_bit 16 x), ucast (drop_bit 24 x)]"

definition encode_event :: "event_record \<Rightarrow> byte list" where
  "encode_event r =
     u32_bytes (r_wd r) @ u32_bytes (r_mask r) @ u32_bytes (r_cookie r) @
     u32_bytes (of_nat (length (r_name r))) @ r_name r"

definition encode_events :: "event_record list \<Rightarrow> byte list" where
  "encode_events rs = concat (map encode_event rs)"

definition header_of :: "event_record \<Rightarrow> inotify_event" where
  "header_of r =
     \<lparr>wd = r_wd r, mask_f = r_mask r, cookie = r_cookie r, len = of_nat (length (r_name r))\<rparr>"

definition well_formed :: "event_record \<Rightarrow> bool" where
  "well_formed r = (length (r_name r) < 2 ^ 32)"

text \<open>The bytes one header and its name occupy, as the loop's increment counts them.\<close>

definition consumed :: "nat \<times> inotify_event \<Rightarrow> nat" where
  "consumed e = SIZEOF_EVENT + unat (len (snd e))"

fun layout :: "nat \<Rightarrow> event_record list \<Rightarrow> (nat \<times> inotify_event) list" where
  "layout p [] = []"
| "layout p (r # rs) = (p, header_of r) # layout (p + length (encode_event r)) rs"

text \<open>
  The notifications the loop is expected to ask for, given the headers it has seen: one
  for each header whose category has a message, with the display name as the title.
\<close>

fun messages_for :: "string \<Rightarrow> (nat \<times> inotify_event) list \<Rightarrow> (string \<times> string) list" where
  "messages_for basePath [] = []"
| "messages_for basePath (e # es) =
     (case category_message (classify (mask_f (snd e))) of
        None \<Rightarrow> messages_for basePath es
      | Some m \<Rightarrow> (basePath, m) # messages_for basePath es)"

text \<open>The calls that release what \<open>main\<close> has acquired.\<close>

fun is_release :: "call \<Rightarrow> bool" where
  "is_release (InotifyRmWatch q d) = True"
| "is_release (Close q) = True"
| "is_release NotifyUninit = True"
| "is_release c = False"

fun outcome_status :: "outcome \<Rightarrow> int option" where
  "outcome_status (Exited n w) = Some n"
| "outcome_status (Blocked w) = None"
| "outcome_status (Faulted f w) = None"


text \<open>
  The segments of a path, for comparison with the tokenisation loop: the path is cut at
  every separator, and the empty pieces (before a leading separator, between two
  separators in a row, after a trailing one) are dropped.
\<close>

fun split_sep :: "string \<Rightarrow> string list" where
  "split_sep [] = [[]]"
| "split_sep (c # cs) =
     (if is_sep c then [] # split_sep cs
      else (case split_sep cs of [] \<Rightarrow> [[c]] | t # ts \<Rightarrow> (c # t) # ts))"

definition segments :: "string \<Rightarrow> string list" where
  "segments path = filter (\<lambda>t. t \<noteq> []) (split_sep path)"

fun outcome_fault :: "outcome \<Rightarrow> fault option" where
  "outcome_fault (Exited n w) = None"
| "outcome_fault (Blocked w) = None"
| "outcome_fault (Faulted f w) = Some f"

text \<open>
  The course of a run: how it ended, what it printed on the output stream, the headers
  it saw and the notifications it asked for.
\<close>

definition course ::
  "outcome \<Rightarrow> int option \<times> fault option \<times> string list \<times> (nat \<times> inotify_event) list \<times>
     (string \<times> string) list" where
  "course r =
     (outcome_status r, outcome_fault r, stdout (outcome_world r), events (outcome_world r),
      notifications (calls (outcome_world r)))"

definition null_handle_line :: string where
  "null_handle_line = ''Got a null notify handle!\<newline>''"

text \<open>
  Example inputs: a record without a name, an array of zero bytes, and an environment in
  which start-up succeeds (queue 3, watch 1).
\<close>

definition example_record :: "u32 \<Rightarrow> event_record" where
  "example_record m = \<lparr>r_wd = 1, r_mask = m, r_cookie = 0, r_name = []\<rparr>"

definition zero_buffer :: "nat \<Rightarrow> byte" where
  "zero_buffer = (\<lambda>i. 0)"

definition example_env :: "read_result list \<Rightarrow> (nat \<Rightarrow> sink_result) \<Rightarrow> env" where
  "example_env rs snk =
     \<lparr>notify_init_ret = True, inotify_init_ret = 3, inotify_add_watch_ret = 1,
      malloc_ok = True, stack_buffer = zero_buffer, reads = rs, sink = snk\<rparr>"

section \<open>Auxiliary facts\<close>

lemmas flag_defs =
  IN_ACCESS_def IN_MODIFY_def IN_CLOSE_WRITE_def IN_CREATE_def IN_DELETE_def IN_MOVE_SELF_def

lemmas ext_defs =
  EXT_SUCCESS_def EXT_ERR_TOO_FEW_ARGS_def EXT_ERR_INIT_INOTIFY_def EXT_ERR_ADD_WATCH_def
  EXT_ERR_BASE_PATH_NULL_def EXT_ERR_READ_INOTIFY_def EXT_ERR_INIT_LIBNOTIFY_def

lemmas world_defs = do_call_def print_out_def print_err_def world0_def

lemma and_or_zero: "(m AND (a OR b) = 0) = (m AND a = 0 \<and> m AND b = 0)" for m :: u32
  by (simp add: bit.conj_disj_distrib or_eq_0_iff)

lemma category_message_None: "(category_message c = None) = (c = Ignored)"
  by (cases c) (simp_all add: category_message_def)

subsection \<open>The header bytes\<close>

lemma u32_roundtrip:
  "ucast (ucast x :: byte) OR push_bit 8 (ucast (ucast (drop_bit 8 x) :: byte)) OR
   push_bit 16 (ucast (ucast (drop_bit 16 x) :: byte)) OR
   push_bit 24 (ucast (ucast (drop_bit 24 x) :: byte)) = (x :: u32)"
proof (rule bit_word_eqI)
  fix n :: nat
  assume "n < LENGTH(32)"
  then have n: "n < 32" by simp
  consider "n < 8" | "8 \<le> n" "n < 16" | "16 \<le> n" "n < 24" | "24 \<le> n"
    by linarith
  then show "bit (ucast (ucast x :: byte) OR push_bit 8 (ucast (ucast (drop_bit 8 x) :: byte)) OR
      push_bit 16 (ucast (ucast (drop_bit 16 x) :: byte)) OR
      push_bit 24 (ucast (ucast (drop_bit 24 x) :: byte)) :: u32) n = bit x n"
    using n by cases (auto simp: bit_simps)
qed

lemma u32_at_store:
  assumes "data = pre @ u32_bytes x @ post"
  shows "u32_at (store_bytes data buffer) (length pre) = x"
proof -
  have "store_bytes data buffer (length pre) = ucast x"
       "store_bytes data buffer (length pre + 1) = ucast (drop_bit 8 x)"
       "store_bytes data buffer (length pre + 2) = ucast (drop_bit 16 x)"
       "store_bytes data buffer (length pre + 3) = ucast (drop_bit 24 x)"
    using assms by (simp_all add: store_bytes_def u32_bytes_def nth_append)
  then show ?thesis
    by (simp only: u32_at_def u32_roundtrip)
qed

lemma length_u32_bytes [simp]: "length (u32_bytes x) = 4"
  by (simp add: u32_bytes_def)

lemma length_encode_event: "length (encode_event r) = SIZEOF_EVENT + length (r_name r)"
  by (simp add: encode_event_def SIZEOF_EVENT_def)

lemma watchEvent_at_encoded:
  assumes d: "data = pre @ encode_event r @ post"
  shows "watchEvent_at (store_bytes data buffer) (length pre) = header_of r"
proof -
  let ?b = "store_bytes data buffer"
  have 1: "u32_at ?b (length pre) = r_wd r"
    using d by (intro u32_at_store [where post = "u32_bytes (r_mask r) @ u32_bytes (r_cookie r) @
      u32_bytes (of_nat (length (r_name r))) @ r_name r @ post"]) (simp add: encode_event_def)
  have 2: "u32_at ?b (length (pre @ u32_bytes (r_wd r))) = r_mask r"
    using d by (intro u32_at_store [where post = "u32_bytes (r_cookie r) @
      u32_bytes (of_nat (length (r_name r))) @ r_name r @ post"]) (simp add: encode_event_def)
  have 3: "u32_at ?b (length (pre @ u32_bytes (r_wd r) @ u32_bytes (r_mask r))) = r_cookie r"
    using d by (intro u32_at_store [where post =
      "u32_bytes (of_nat (length (r_name r))) @ r_name r @ post"]) (simp add: encode_event_def)
  have 4: "u32_at ?b (length (pre @ u32_bytes (r_wd r) @ u32_bytes (r_mask r) @ u32_bytes (r_cookie r)))
      = of_nat (length (r_name r))"
    using d by (intro u32_at_store [where post = "r_name r @ post"]) (simp add: encode_event_def)
  show ?thesis
    using 1 2 3 4 by (simp add: watchEvent_at_def header_of_def add.assoc)
qed

subsection \<open>The walk over a buffer of whole records\<close>

lemma scan_layout:
  assumes "\<forall>r\<in>set rs. well_formed r"
  shows "scan (store_bytes (pre @ encode_events rs) buffer) (length (pre @ encode_events rs))
           (length pre) = layout (length pre) rs"
  using assms
proof (induction rs arbitrary: pre)
  case Nil
  then show ?case by (simp add: encode_events_def scan.simps)
next
  case (Cons r rs)
  let ?data = "pre @ encode_events (r # rs)"
  have d: "?data = pre @ encode_event r @ encode_events rs"
    by (simp add: encode_events_def)
  have we: "watchEvent_at (store_bytes ?data buffer) (length pre) = header_of r"
    using watchEvent_at_encoded [OF d] by simp
  have wf: "length (r_name r) < 2 ^ 32"
    using Cons.prems by (simp add: well_formed_def)
  have un: "unat (len (header_of r)) = length (r_name r)"
    using wf by (simp add: header_of_def unat_of_nat)
  have nxt: "length pre + SIZEOF_EVENT + unat (len (header_of r)) = length (pre @ encode_event r)"
    by (simp add: un length_encode_event)
  have d2: "?data = (pre @ encode_event r) @ encode_events rs"
    by (simp add: encode_events_def)
  have ih: "scan (store_bytes ?data buffer) (length ?data) (length (pre @ encode_event r))
      = layout (length (pre @ encode_event r)) rs"
    unfolding d2 using Cons.IH [of "pre @ encode_event r"] Cons.prems by simp
  have lt: "length pre < length ?data"
    by (simp add: d length_encode_event SIZEOF_EVENT_def)
  show ?case
    apply (subst scan.simps)
    apply (simp only: lt if_True we nxt ih)
    apply simp
    done
qed

lemma length_layout: "length (layout p rs) = length rs"
  by (induction rs arbitrary: p) simp_all

lemma map_snd_layout: "map snd (layout p rs) = map header_of rs"
  by (induction rs arbitrary: p) simp_all

lemma consumed_layout:
  "\<forall>r\<in>set rs. well_formed r \<Longrightarrow>
     sum_list (map consumed (layout p rs)) = length (encode_events rs)"
proof (induction rs arbitrary: p)
  case Nil
  then show ?case by (simp add: encode_events_def)
next
  case (Cons r rs)
  have "unat (len (header_of r)) = length (r_name r)"
    using Cons.prems by (simp add: header_of_def unat_of_nat well_formed_def)
  then have "consumed (p, header_of r) = length (encode_event r)"
    by (simp add: consumed_def length_encode_event)
  moreover have "sum_list (map consumed (layout (p + length (encode_event r)) rs))
      = length (encode_events rs)"
    using Cons by simp
  moreover have "length (encode_events (r # rs)) = length (encode_event r) + length (encode_events rs)"
    by (simp add: encode_events_def)
  ultimately show ?case
    by simp
qed

lemma extent_layout:
  "\<forall>r\<in>set rs. well_formed r \<Longrightarrow> e \<in> set (layout p rs) \<Longrightarrow>
     p \<le> fst e \<and> fst e + consumed e \<le> p + length (encode_events rs)"
proof (induction rs arbitrary: p)
  case Nil
  then show ?case by simp
next
  case (Cons r rs)
  have un: "unat (len (header_of r)) = length (r_name r)"
    using Cons.prems(1) by (simp add: header_of_def unat_of_nat well_formed_def)
  have len: "length (encode_events (r # rs)) = length (encode_event r) + length (encode_events rs)"
    by (simp add: encode_events_def)
  show ?case
  proof (cases "e = (p, header_of r)")
    case True
    then show ?thesis
      by (simp add: consumed_def un len length_encode_event)
  next
    case False
    then have "e \<in> set (layout (p + length (encode_event r)) rs)"
      using Cons.prems(2) by simp
    then have "p + length (encode_event r) \<le> fst e \<and>
        fst e + consumed e \<le> p + length (encode_event r) + length (encode_events rs)"
      using Cons.IH [of "p + length (encode_event r)"] Cons.prems(1) by simp
    then show ?thesis
      by (simp add: len)
  qed
qed

subsection \<open>The loop is the walk followed by the notifications\<close>

lemma event_loop_split:
  "event_loop snk bp buffer n p w = notify_all snk bp (scan buffer n p) w"
proof (induction snk bp buffer n p w rule: event_loop.induct)
  case (1 snk basePath buffer readLength p w)
  note unf = event_loop.simps [of snk basePath buffer readLength p w]
    scan.simps [of buffer readLength p]
  let ?ev = "watchEvent_at buffer p"
  show ?case
  proof (cases "p < readLength")
    case False
    then show ?thesis
      by (simp add: unf)
  next
    case True
    show ?thesis
    proof (cases "category_message (classify (mask_f ?ev))")
      case None
      with True "1.IH"(1) [OF True refl refl refl None] show ?thesis
        by (simp add: unf notify_one_def Let_def)
    next
      case (Some msg)
      show ?thesis
      proof (cases "snk (notified w)")
        case NullHandle
        with True Some "1.IH"(2) [OF True refl refl refl Some refl] show ?thesis
          by (simp add: unf notify_one_def Let_def)
      next
        case ShowFailed
        with True Some "1.IH"(3) [OF True refl refl refl Some refl] show ?thesis
          by (simp add: unf notify_one_def Let_def)
      next
        case Shown
        with True Some "1.IH"(4) [OF True refl refl refl Some refl] show ?thesis
          by (simp add: unf notify_one_def Let_def)
      qed
    qed
  qed
qed

lemma scan_below:
  "e \<in> set (scan buffer n p) \<Longrightarrow> p \<le> fst e \<and> fst e < n"
proof (induction buffer n p rule: scan.induct)
  case (1 buffer readLength p)
  show ?case
  proof (cases "p < readLength")
    case False
    with "1.prems" show ?thesis
      by (simp add: scan.simps [of buffer readLength p])
  next
    case True
    let ?ev = "watchEvent_at buffer p"
    show ?thesis
    proof (cases "e = (p, ?ev)")
      case True
      with \<open>p < readLength\<close> show ?thesis by simp
    next
      case False
      with "1.prems" True
      have "e \<in> set (scan buffer readLength (p + SIZEOF_EVENT + unat (len ?ev)))"
        by (simp add: scan.simps [of buffer readLength p])
      from "1.IH" [OF True this] show ?thesis by simp
    qed
  qed
qed

lemma scan_frame:
  "\<forall>e\<in>set (scan buffer n p). \<forall>i<SIZEOF_EVENT. buffer' (fst e + i) = buffer (fst e + i) \<Longrightarrow>
     scan buffer' n p = scan buffer n p"
proof (induction buffer n p rule: scan.induct)
  case (1 buffer readLength p)
  show ?case
  proof (cases "p < readLength")
    case False
    then show ?thesis
      by (simp add: scan.simps [of buffer readLength p] scan.simps [of buffer' readLength p])
  next
    case True
    let ?ev = "watchEvent_at buffer p"
    let ?p' = "p + SIZEOF_EVENT + unat (len ?ev)"
    have sc: "scan buffer readLength p = (p, ?ev) # scan buffer readLength ?p'"
      using True by (simp add: scan.simps [of buffer readLength p])
    have "\<forall>i<SIZEOF_EVENT. buffer' (p + i) = buffer (p + i)"
      using "1.prems" sc by simp
    then have eq: "buffer' (p + i) = buffer (p + i)" if "i < 16" for i
      using that by (simp add: SIZEOF_EVENT_def)
    have u: "u32_at buffer' (p + k) = u32_at buffer (p + k)" if "k + 3 < 16" for k
      using eq [of k] eq [of "k + 1"] eq [of "k + 2"] eq [of "k + 3"] that
      by (simp only: u32_at_def add.assoc)
    have ev: "watchEvent_at buffer' p = ?ev"
      using u [of 0] u [of 4] u [of 8] u [of 12] by (simp add: watchEvent_at_def)
    have "scan buffer' readLength ?p' = scan buffer readLength ?p'"
      using "1.prems" sc by (intro "1.IH" [OF True]) simp
    then show ?thesis
      using True ev sc by (simp add: scan.simps [of buffer' readLength p])
  qed
qed

subsection \<open>What the notifications do to the world\<close>

lemma notifications_append: "notifications (xs @ ys) = notifications xs @ notifications ys"
  by (induction xs rule: notifications.induct) simp_all

lemma notify_one_events: "events (notify_one snk bp e w) = events w @ [e]"
  by (simp add: notify_one_def world_defs Let_def split: option.splits sink_result.splits)

lemma notify_one_stdout: "stdout (notify_one snk bp e w) = stdout w"
  by (simp add: notify_one_def world_defs Let_def split: option.splits sink_result.splits)

lemma notify_one_notifications:
  "notifications (calls (notify_one snk bp e w)) = notifications (calls w) @ messages_for bp [e]"
  by (simp add: notify_one_def world_defs Let_def notifications_append
      split: option.splits sink_result.splits)

lemma notify_one_notified:
  "notified (notify_one snk bp e w) = notified w + length (messages_for bp [e])"
  by (simp add: notify_one_def world_defs Let_def split: option.splits sink_result.splits)

lemma notify_one_release:
  "filter is_release (calls (notify_one snk bp e w)) = filter is_release (calls w)"
  by (simp add: notify_one_def world_defs Let_def split: option.splits sink_result.splits)

lemma messages_for_append: "messages_for bp (xs @ ys) = messages_for bp xs @ messages_for bp ys"
  by (induction xs) (simp_all split: option.splits)

lemma messages_for_title: "x \<in> set (messages_for bp es) \<Longrightarrow> fst x = bp"
  by (induction es) (auto split: option.splits)

lemma notify_all_events: "events (notify_all snk bp es w) = events w @ es"
  by (induction es arbitrary: w) (simp_all add: notify_one_events)

lemma notify_all_stdout: "stdout (notify_all snk bp es w) = stdout w"
  by (induction es arbitrary: w) (simp_all add: notify_one_stdout)

lemma notify_all_notifications:
  "notifications (calls (notify_all snk bp es w)) = notifications (calls w) @ messages_for bp es"
proof (induction es arbitrary: w)
  case Nil
  then show ?case by simp
next
  case (Cons e es)
  have "messages_for bp (e # es) = messages_for bp [e] @ messages_for bp es"
    using messages_for_append [of bp "[e]" es] by simp
  then show ?case
    by (simp add: Cons.IH notify_one_notifications)
qed

lemma notify_all_notified:
  "notified (notify_all snk bp es w) = notified w + length (messages_for bp es)"
proof (induction es arbitrary: w)
  case Nil
  then show ?case by simp
next
  case (Cons e es)
  have "messages_for bp (e # es) = messages_for bp [e] @ messages_for bp es"
    using messages_for_append [of bp "[e]" es] by simp
  then show ?case
    by (simp add: Cons.IH notify_one_notified)
qed

lemma notify_all_release:
  "filter is_release (calls (notify_all snk bp es w)) = filter is_release (calls w)"
  by (induction es arbitrary: w) (simp_all add: notify_one_release)

subsection \<open>The display name\<close>

lemma token_loop_not_None: "token_loop (Some b) t \<noteq> None"
  by (induction "Some b" t arbitrary: b rule: token_loop.induct) simp_all

lemma display_name_not_None: "display_name path \<noteq> None"
  by (simp add: display_name_def token_loop_not_None)

lemma strtok_all_sep: "\<forall>c\<in>set s. is_sep c \<Longrightarrow> strtok s = None"
  by (simp add: strtok_def)

lemma strtok_skip_sep: "strtok (CHR ''/'' # s) = strtok s"
  by (simp add: strtok_def is_sep_def)

lemma strtok_token_end:
  "t \<noteq> [] \<Longrightarrow> \<forall>c\<in>set t. \<not> is_sep c \<Longrightarrow> strtok t = Some (t, [])"
proof -
  assume ne: "t \<noteq> []" and ns: "\<forall>c\<in>set t. \<not> is_sep c"
  have a: "dropWhile is_sep t = t"
    using ne ns by (cases t) simp_all
  have b: "takeWhile (\<lambda>c. \<not> is_sep c) t = t"
    using ns by (simp add: takeWhile_eq_all_conv)
  have c: "dropWhile (\<lambda>c. \<not> is_sep c) t = []"
    using ns by (simp add: dropWhile_eq_Nil_conv)
  show ?thesis
    unfolding strtok_def Let_def a b c using ne by simp
qed

lemma strtok_token_sep:
  assumes "t \<noteq> []" and "\<forall>c\<in>set t. \<not> is_sep c"
  shows "strtok (t @ CHR ''/'' # r) = Some (t, r)"
proof -
  from assms obtain x xs where t: "t = x # xs" and x: "\<not> is_sep x"
    by (cases t) auto
  have tw: "takeWhile (\<lambda>c. \<not> is_sep c) (t @ CHR ''/'' # r) = t"
    using assms(2) by (simp add: takeWhile_append2 is_sep_def)
  have dw: "dropWhile (\<lambda>c. \<not> is_sep c) (t @ CHR ''/'' # r) = CHR ''/'' # r"
    using assms(2) by (simp add: dropWhile_append2 is_sep_def)
  have "dropWhile is_sep (t @ CHR ''/'' # r) = t @ CHR ''/'' # r"
    using t x by simp
  then show ?thesis
    using tw dw t by (simp add: strtok_def)
qed

lemma token_loop_last_segment:
  assumes "seg \<noteq> []" and "\<forall>c\<in>set seg. \<not> is_sep c"
  shows "token_loop b (strtok (s @ CHR ''/'' # seg)) = Some seg"
proof (induction s arbitrary: b rule: length_induct)
  case (1 s)
  have fin: "token_loop b' (strtok seg) = Some seg" for b'
    using strtok_token_end [OF assms] by (simp add: strtok_def)
  show ?case
  proof (cases s)
    case Nil
    then show ?thesis
      by (simp add: strtok_skip_sep fin)
  next
    case (Cons c s')
    show ?thesis
    proof (cases "is_sep c")
      case True
      then have "strtok (s @ CHR ''/'' # seg) = strtok (s' @ CHR ''/'' # seg)"
        using Cons by (simp add: is_sep_def strtok_skip_sep)
      moreover have "token_loop b (strtok (s' @ CHR ''/'' # seg)) = Some seg"
        using "1.IH" Cons by simp
      ultimately show ?thesis by simp
    next
      case False
      let ?t = "takeWhile (\<lambda>c. \<not> is_sep c) s"
      let ?r = "dropWhile (\<lambda>c. \<not> is_sep c) s"
      have t_ne: "?t \<noteq> []"
        using False Cons by simp
      have t_ns: "\<forall>c\<in>set ?t. \<not> is_sep c"
        by (auto dest: set_takeWhileD)
      have s_eq: "s = ?t @ ?r"
        by simp
      show ?thesis
      proof (cases ?r)
        case Nil
        then have "s = ?t"
          by (metis append_Nil2 takeWhile_dropWhile_id)
        then have "strtok (s @ CHR ''/'' # seg) = Some (?t, seg)"
          using strtok_token_sep [OF t_ne t_ns, of seg] by simp
        then show ?thesis
          by (simp add: fin)
      next
        case (Cons d r')
        then have "is_sep d"
          using hd_dropWhile [of "\<lambda>c. \<not> is_sep c" s] by auto
        then have d: "d = CHR ''/''"
          by (simp add: is_sep_def)
        have s2: "s @ CHR ''/'' # seg = ?t @ CHR ''/'' # (r' @ CHR ''/'' # seg)"
          using s_eq Cons d by (metis append.assoc append_Cons)
        have "length r' < length s"
          using length_dropWhile_le [of "\<lambda>c. \<not> is_sep c" s] Cons by simp
        then have ih: "token_loop (Some ?t) (strtok (r' @ CHR ''/'' # seg)) = Some seg"
          using "1.IH" by simp
        have "strtok (s @ CHR ''/'' # seg) = Some (?t, r' @ CHR ''/'' # seg)"
          by (subst s2) (rule strtok_token_sep [OF t_ne t_ns])
        then show ?thesis
          using ih by (simp only: token_loop.simps)
      qed
    qed
  qed
qed

lemma split_sep_not_Nil: "split_sep s \<noteq> []"
  by (induction s) (simp_all split: list.splits)

lemma split_sep_token:
  "\<forall>c\<in>set t. \<not> is_sep c \<Longrightarrow> split_sep (t @ CHR ''/'' # r) = t # split_sep r"
  by (induction t) (simp_all add: is_sep_def)

lemma split_sep_token_end: "\<forall>c\<in>set t. \<not> is_sep c \<Longrightarrow> split_sep t = [t]"
  by (induction t) simp_all

lemma token_loop_segments:
  "token_loop b (strtok s) = (case segments s of [] \<Rightarrow> b | t # ts \<Rightarrow> Some (last (t # ts)))"
proof (induction s arbitrary: b rule: length_induct)
  case (1 s)
  show ?case
  proof (cases s)
    case Nil
    then show ?thesis
      by (simp add: strtok_def segments_def)
  next
    case (Cons c s')
    show ?thesis
    proof (cases "is_sep c")
      case True
      then have "strtok s = strtok s'" and "segments s = segments s'"
        using Cons by (simp_all add: is_sep_def strtok_skip_sep segments_def)
      moreover have "token_loop b (strtok s') =
          (case segments s' of [] \<Rightarrow> b | t # ts \<Rightarrow> Some (last (t # ts)))"
        using "1.IH" Cons by simp
      ultimately show ?thesis by simp
    next
      case False
      let ?t = "takeWhile (\<lambda>c. \<not> is_sep c) s"
      let ?r = "dropWhile (\<lambda>c. \<not> is_sep c) s"
      have t_ne: "?t \<noteq> []"
        using False Cons by simp
      have t_ns: "\<forall>c\<in>set ?t. \<not> is_sep c"
        by (auto dest: set_takeWhileD)
      show ?thesis
      proof (cases ?r)
        case Nil
        then have s: "s = ?t"
          by (metis append_Nil2 takeWhile_dropWhile_id)
        have "strtok s = Some (?t, [])"
          using strtok_token_end [OF t_ne t_ns] s by simp
        moreover have "segments s = [?t]"
          using split_sep_token_end [OF t_ns] s t_ne by (simp add: segments_def)
        ultimately show ?thesis
          by (simp add: strtok_def)
      next
        case (Cons d r')
        then have "is_sep d"
          using hd_dropWhile [of "\<lambda>c. \<not> is_sep c" s] by auto
        then have d: "d = CHR ''/''"
          by (simp add: is_sep_def)
        have s2: "s = ?t @ CHR ''/'' # r'"
          using Cons d by (metis takeWhile_dropWhile_id)
        have len: "length r' < length s"
          using length_dropWhile_le [of "\<lambda>c. \<not> is_sep c" s] Cons by simp
        have st: "strtok s = Some (?t, r')"
          by (subst s2) (rule strtok_token_sep [OF t_ne t_ns])
        have "split_sep s = ?t # split_sep r'"
          by (subst s2) (rule split_sep_token [OF t_ns])
        then have sg: "segments s = ?t # segments r'"
          using t_ne by (simp add: segments_def)
        have ih: "token_loop (Some ?t) (strtok r') =
            (case segments r' of [] \<Rightarrow> Some ?t | u # us \<Rightarrow> Some (last (u # us)))"
          using "1.IH" len by simp
        show ?thesis
          by (simp only: st sg token_loop.simps ih) (simp split: list.splits)
      qed
    qed
  qed
qed

subsection \<open>The daemon loop\<close>

lemma main_loop_status:
  "outcome_status (main_loop snk bp q rs buffer w) = Some n \<Longrightarrow> n = EXT_ERR_READ_INOTIFY"
  by (induction rs arbitrary: buffer w) (auto simp: Let_def split: read_result.splits)

lemma main_loop_titles:
  "\<forall>x\<in>set (notifications (calls w)). fst x = bp \<Longrightarrow>
   \<forall>x\<in>set (notifications (calls (outcome_world (main_loop snk bp q rs buffer w)))). fst x = bp"
proof (induction rs arbitrary: buffer w)
  case Nil
  then show ?case by (simp add: world_defs notifications_append)
next
  case (Cons r rs)
  let ?w1 = "do_call (Read q BUFFER_SIZE) (print_out ''Waiting for ievent...\<newline>'' w)"
  have w1: "\<forall>x\<in>set (notifications (calls ?w1)). fst x = bp"
    using Cons.prems by (simp add: world_defs notifications_append)
  show ?case
  proof (cases r)
    case ReadError
    then show ?thesis
      using w1 by (simp add: Let_def print_err_def)
  next
    case (ReadBytes bytes)
    let ?data = "take BUFFER_SIZE bytes"
    let ?b = "store_bytes ?data buffer"
    have "\<forall>x\<in>set (notifications (calls
        (notify_all snk bp (scan ?b (length ?data) 0) ?w1))). fst x = bp"
      using w1 by (auto simp: notify_all_notifications dest: messages_for_title)
    from Cons.IH [OF this] show ?thesis
      using ReadBytes by (simp add: Let_def event_loop_split)
  qed
qed

lemma main_loop_release:
  "filter is_release (calls (outcome_world (main_loop snk bp q rs buffer w)))
     = filter is_release (calls w)"
proof (induction rs arbitrary: buffer w)
  case Nil
  then show ?case by (simp add: world_defs)
next
  case (Cons r rs)
  show ?case
  proof (cases r)
    case ReadError
    then show ?thesis
      by (simp add: Let_def world_defs)
  next
    case (ReadBytes bytes)
    then show ?thesis
      by (simp add: Let_def event_loop_split Cons.IH notify_all_release) (simp add: world_defs)
  qed
qed

lemmas ex_defs = example_record_def zero_buffer_def example_env_def

section \<open>Classification: claims C2 and C6\<close>

text \<open>
  C2, as stated: for a mask with more than one recognised bit the loop reports the first
  match in the order Created, Deleted, Accessed, WrittenAndClosed, Modified, MovedSelf,
  so a record with the Created and the Modified bit is Created. The code does not: its
  six \<open>if\<close> statements all run and each overwrites the message, so the mask with the
  two bits is classified Modified, where the first-match classifier of the spec says
  Created.
\<close>

theorem classify_created_modified_counterexample:
  "spec_classify (IN_CREATE OR IN_MODIFY) = Created \<and>
   classify (IN_CREATE OR IN_MODIFY) = Modified"
  by (simp add: spec_classify_def classify_def flag_defs)

text \<open>
  C2, amended: classification returns the last match of the source's order, that is the
  first match in the order MovedSelf, Modified, WrittenAndClosed, Accessed, Deleted,
  Created; a record with the Created and the Modified bit is Modified.
\<close>

theorem classify_last_match_wins:
  "classify m =
     (if m AND IN_MOVE_SELF \<noteq> 0 then MovedSelf
      else if m AND IN_MODIFY \<noteq> 0 then Modified
      else if m AND IN_CLOSE_WRITE \<noteq> 0 then WrittenAndClosed
      else if m AND IN_ACCESS \<noteq> 0 then Accessed
      else if m AND IN_DELETE \<noteq> 0 then Deleted
      else if m AND IN_CREATE \<noteq> 0 then Created
      else Ignored)"
  by (simp add: classify_def)

text \<open>
  C6: classification is total. Every mask has exactly one category; it is Ignored exactly
  when no bit of the six watched flags is set, and Ignored is the one category without a
  message. For a header classified Ignored the loop only moves on to the next header:
  no call is made and nothing is printed. Over a whole buffer, the notifications asked
  for are exactly those of the headers seen that are not Ignored.
\<close>

theorem classify_total_ignored_silent:
  "(\<exists>!c. classify m = c) \<and>
   (classify m = Ignored \<longleftrightarrow> m AND watch_flags = 0) \<and>
   (category_message (classify m) = None \<longleftrightarrow> classify m = Ignored) \<and>
   (p < readLength \<and> watchEvent_at buffer p = ev \<and> classify (mask_f ev) = Ignored \<longrightarrow>
      event_loop snk bp buffer readLength p w =
      event_loop snk bp buffer readLength (p + SIZEOF_EVENT + unat (len ev))
        (w\<lparr>events := events w @ [(p, ev)]\<rparr>)) \<and>
   notifications (calls (event_loop snk bp buffer readLength p w)) =
      notifications (calls w) @
      messages_for bp (drop (length (events w)) (events (event_loop snk bp buffer readLength p w)))"
proof -
  have 1: "\<exists>!c. classify m = c"
    by simp
  have 2: "classify m = Ignored \<longleftrightarrow> m AND watch_flags = 0"
    by (simp add: classify_def watch_flags_def and_or_zero)
  have 4: "event_loop snk bp buffer readLength p w =
      event_loop snk bp buffer readLength (p + SIZEOF_EVENT + unat (len ev))
        (w\<lparr>events := events w @ [(p, ev)]\<rparr>)"
    if "p < readLength" "watchEvent_at buffer p = ev" "classify (mask_f ev) = Ignored"
    using that
    by (subst event_loop.simps) (simp add: category_message_def Let_def)
  have 5: "notifications (calls (event_loop snk bp buffer readLength p w)) =
      notifications (calls w) @
      messages_for bp (drop (length (events w)) (events (event_loop snk bp buffer readLength p w)))"
    by (simp add: event_loop_split notify_all_notifications notify_all_events)
  show ?thesis
    using 1 2 4 5 by (simp add: category_message_None)
qed

text \<open>
  C6, at an input: the mask 0x400 (the watched file itself was deleted) has none of the
  six flags, and a buffer holding one such record gives no notification.
\<close>

theorem classify_total_ignored_silent_witness:
  "classify 0x400 = Ignored \<and>
   (0::nat) < 16 \<and>
   watchEvent_at (store_bytes (encode_event (example_record 0x400)) zero_buffer) 0 =
     \<lparr>wd = 1, mask_f = 0x400, cookie = 0, len = 0\<rparr> \<and>
   event_loop (\<lambda>i. Shown) ''f'' (store_bytes (encode_event (example_record 0x400)) zero_buffer)
     16 0 world0 =
     world0\<lparr>events := [(0, \<lparr>wd = 1, mask_f = 0x400, cookie = 0, len = 0\<rparr>)]\<rparr> \<and>
   notifications (calls (world0\<lparr>events := [(0, \<lparr>wd = 1, mask_f = 0x400, cookie = 0, len = 0\<rparr>)]\<rparr>))
     = []"
proof -
  let ?b = "store_bytes (encode_event (example_record 0x400)) zero_buffer"
  let ?ev = "\<lparr>wd = 1, mask_f = 0x400, cookie = 0, len = 0\<rparr>"
  have c: "classify 0x400 = Ignored"
    by (simp add: classify_def flag_defs)
  have h: "watchEvent_at ?b 0 = ?ev"
    using watchEvent_at_encoded [of "encode_event (example_record 0x400)" "[]"
        "example_record 0x400" "[]" zero_buffer]
    by (simp add: header_of_def example_record_def)
  have stop: "event_loop (\<lambda>i. Shown) ''f'' ?b 16 16 (world0\<lparr>events := [(0, ?ev)]\<rparr>) =
      world0\<lparr>events := [(0, ?ev)]\<rparr>"
    by (simp add: event_loop.simps)
  note t = classify_total_ignored_silent [where m = "0x400" and p = 0 and readLength = 16
      and buffer = ?b and ev = ?ev and snk = "\<lambda>i. Shown" and bp = "''f''" and w = world0]
  have run: "event_loop (\<lambda>i. Shown) ''f'' ?b 16 0 world0 = world0\<lparr>events := [(0, ?ev)]\<rparr>"
    using t c h stop by (simp add: SIZEOF_EVENT_def world0_def)
  show ?thesis
    using t c h run by (simp add: world0_def)
qed

section \<open>Start-up: claims C9, C10 and C7\<close>

text \<open>
  C9: with fewer than one path argument (\<open>argc < 2\<close>) the program prints the usage
  line on the error stream and exits with the usage status, which differs from the six
  other statuses; it has made no call at all before, so the notification library, the
  queue and the watch are never touched.
\<close>

theorem too_few_args_exits:
  "length argv < 2 \<Longrightarrow>
     main argv e =
       Exited EXT_ERR_TOO_FEW_ARGS (world0\<lparr>stderr := [''USAGE: rolexhound PATH\<newline>'']\<rparr>) \<and>
     calls (outcome_world (main argv e)) = [] \<and>
     EXT_ERR_TOO_FEW_ARGS \<notin> {EXT_SUCCESS, EXT_ERR_INIT_INOTIFY, EXT_ERR_ADD_WATCH,
       EXT_ERR_BASE_PATH_NULL, EXT_ERR_READ_INOTIFY, EXT_ERR_INIT_LIBNOTIFY}"
  by (simp add: main_def print_err_def world0_def ProgramTitle_def ext_defs)

text \<open>C9, at an input: the program started with no argument after its own name.\<close>

theorem too_few_args_exits_witness:
  "length [''rolexhound''] < 2 \<and>
   main [''rolexhound''] (example_env [] (\<lambda>i. Shown)) =
     Exited 1 \<lparr>stdout = [], stderr = [''USAGE: rolexhound PATH\<newline>''], calls = [],
               events = [], notified = 0\<rparr>"
  using too_few_args_exits [of "[''rolexhound'']" "example_env [] (\<lambda>i. Shown)"]
  by (simp add: world0_def ext_defs)

text \<open>
  C10: for every path the display name after the tokenisation loop is not NULL, so
  \<open>main\<close> never exits with the status of the branch \<open>basePath == NULL\<close>, whatever the
  arguments and the environment. A path made of separators only has no token, and the
  display name is the unmodified copy of the path: for the path \<open>/\<close>, when start-up
  succeeds, \<open>main\<close> goes on into the daemon loop with the display name \<open>/\<close>.
\<close>

theorem display_name_never_null:
  "display_name path \<noteq> None \<and>
   outcome_status (main argv e) \<noteq> Some EXT_ERR_BASE_PATH_NULL \<and>
   ((\<forall>c\<in>set path. is_sep c) \<longrightarrow> display_name path = Some path) \<and>
   (notify_init_ret e \<and> inotify_init_ret e \<noteq> -1 \<and> inotify_add_watch_ret e \<noteq> -1 \<and>
    malloc_ok e \<longrightarrow>
      main [prog, ''/''] e =
        main_loop (sink e) ''/'' (inotify_init_ret e) (reads e) (stack_buffer e)
          (world0\<lparr>calls := [NotifyInit ProgramTitle, InotifyInit,
             InotifyAddWatch (inotify_init_ret e) ''/'' watch_flags,
             SignalHandler SIGABRT, SignalHandler SIGINT, SignalHandler SIGTERM, Malloc 2]\<rparr>))"
proof -
  have 2: "outcome_status (main argv e) \<noteq> Some EXT_ERR_BASE_PATH_NULL"
  proof
    assume a: "outcome_status (main argv e) = Some EXT_ERR_BASE_PATH_NULL"
    obtain bp where bp: "display_name (argv ! 1) = Some bp"
      using display_name_not_None [of "argv ! 1"] by auto
    have "outcome_status (main_loop snk bp q rs b w) \<noteq> Some EXT_ERR_BASE_PATH_NULL"
      for snk q rs b w
      using main_loop_status [of snk bp q rs b w EXT_ERR_BASE_PATH_NULL]
      by (auto simp: ext_defs)
    with a bp show False
      by (auto simp: main_def Let_def ext_defs split: if_splits)
  qed
  have 3: "display_name path = Some path" if "\<forall>c\<in>set path. is_sep c"
    using that by (simp add: display_name_def strtok_all_sep)
  have "display_name ''/'' = Some ''/''"
    by (simp add: display_name_def strtok_def is_sep_def)
  then have 4: "main [prog, ''/''] e =
        main_loop (sink e) ''/'' (inotify_init_ret e) (reads e) (stack_buffer e)
          (world0\<lparr>calls := [NotifyInit ProgramTitle, InotifyInit,
             InotifyAddWatch (inotify_init_ret e) ''/'' watch_flags,
             SignalHandler SIGABRT, SignalHandler SIGINT, SignalHandler SIGTERM, Malloc 2]\<rparr>)"
    if "notify_init_ret e" "inotify_init_ret e \<noteq> -1" "inotify_add_watch_ret e \<noteq> -1" "malloc_ok e"
    using that by (simp add: main_def Let_def world_defs numeral_2_eq_2)
  show ?thesis
    using 2 3 4 by (simp add: display_name_not_None)
qed

text \<open>
  C10, at an input: the path \<open>//\<close> keeps its display name \<open>//\<close>, and the program
  started on \<open>/\<close> in an environment where start-up succeeds and the first \<open>read\<close>
  never returns is blocked in the daemon loop, not exited.
\<close>

theorem display_name_never_null_witness:
  "list_all is_sep ''//'' \<and> display_name ''//'' = Some ''//'' \<and>
   main [''rolexhound'', ''/''] (example_env [] (\<lambda>i. Shown)) =
     Blocked \<lparr>stdout = [''Waiting for ievent...\<newline>''], stderr = [],
       calls = [NotifyInit ''rolexhound'', InotifyInit, InotifyAddWatch 3 ''/'' 0xB0B,
         SignalHandler SIGABRT, SignalHandler SIGINT, SignalHandler SIGTERM, Malloc 2,
         Read 3 4096],
       events = [], notified = 0\<rparr>"
proof -
  have s: "\<forall>c\<in>set ''//''. is_sep c"
    by (simp add: is_sep_def)
  note t = display_name_never_null [of "''//''" "[]" "example_env [] (\<lambda>i. Shown)" "''rolexhound''"]
  have d: "display_name ''//'' = Some ''//''"
    using t s by blast
  have m: "main [''rolexhound'', ''/''] (example_env [] (\<lambda>i. Shown)) =
      main_loop (\<lambda>i. Shown) ''/'' 3 [] zero_buffer
        (world0\<lparr>calls := [NotifyInit ProgramTitle, InotifyInit,
           InotifyAddWatch 3 ''/'' watch_flags,
           SignalHandler SIGABRT, SignalHandler SIGINT, SignalHandler SIGTERM, Malloc 2]\<rparr>)"
    using t by (simp add: example_env_def)
  have l: "list_all is_sep ''//''"
    by (simp add: is_sep_def)
  show ?thesis
    using l d unfolding m
    by (simp add: world_defs ProgramTitle_def watch_flags_def flag_defs BUFFER_SIZE_def)
qed

text \<open>
  C7: the display name is the final path segment. For \<open>/a/b/c\<close> it is \<open>c\<close> and for
  \<open>c\<close> it is \<open>c\<close>; for every path it is the last of the segments of the path (the
  whole path when there is none); in particular a path without a separator is its own
  display name, and a path that ends in a separator followed by a non-empty segment has
  that segment as its display name. It is computed once, before the daemon loop, and
  every notification that \<open>main\<close> asks for, in any buffer, has it as its title.
\<close>

theorem display_name_final_segment:
  "display_name ''/a/b/c'' = Some ''c'' \<and>
   display_name ''c'' = Some ''c'' \<and>
   display_name p = Some (case segments p of [] \<Rightarrow> p | t # ts \<Rightarrow> last (t # ts)) \<and>
   ((\<forall>c\<in>set path. \<not> is_sep c) \<longrightarrow> display_name path = Some path) \<and>
   (seg \<noteq> [] \<and> (\<forall>c\<in>set seg. \<not> is_sep c) \<longrightarrow>
      display_name (pre @ ''/'' @ seg) = Some seg) \<and>
   (display_name (argv ! 1) = Some basePath \<longrightarrow>
      (\<forall>x\<in>set (notifications (calls (outcome_world (main argv e)))). fst x = basePath))"
proof -
  have 1: "display_name ''/a/b/c'' = Some ''c''"
    by (simp add: display_name_def strtok_def is_sep_def)
  have 2: "display_name ''c'' = Some ''c''"
    by (simp add: display_name_def strtok_def is_sep_def)
  have 3: "display_name path = Some path" if ns: "\<forall>c\<in>set path. \<not> is_sep c"
  proof (cases "path = []")
    case True
    then show ?thesis by (simp add: display_name_def strtok_def)
  next
    case False
    from strtok_token_end [OF False ns] show ?thesis
      by (simp add: display_name_def strtok_def)
  qed
  have 4: "display_name (pre @ ''/'' @ seg) = Some seg"
    if "seg \<noteq> []" "\<forall>c\<in>set seg. \<not> is_sep c"
    using token_loop_last_segment [OF that, of "Some (pre @ ''/'' @ seg)" pre]
    by (simp add: display_name_def)
  have 5: "\<forall>x\<in>set (notifications (calls (outcome_world (main argv e)))). fst x = basePath"
    if bp: "display_name (argv ! 1) = Some basePath"
  proof -
    have "\<forall>x\<in>set (notifications (calls (outcome_world (main_loop snk basePath q rs b
        \<lparr>stdout = [], stderr = [],
          calls = [NotifyInit t, InotifyInit, InotifyAddWatch q' pth fl, SignalHandler SIGABRT,
            SignalHandler SIGINT, SignalHandler SIGTERM, Malloc k],
          events = [], notified = 0\<rparr>)))). fst x = basePath"
      for snk q rs b t q' pth fl k
      by (rule main_loop_titles) simp
    then show ?thesis
      using bp by (simp add: main_def Let_def world_defs)
  qed
  have 6: "display_name p = Some (case segments p of [] \<Rightarrow> p | t # ts \<Rightarrow> last (t # ts))"
    by (simp add: display_name_def token_loop_segments split: list.splits)
  show ?thesis
    using 1 2 3 4 5 6 by blast
qed

text \<open>
  C7, at an input: the program watching \<open>/tmp/f\<close> reads one buffer with one record
  whose Modified bit is set; the one notification has the title \<open>f\<close>. The path
  \<open>/a/b/\<close>, which ends in a separator, has the segments \<open>a\<close> and \<open>b\<close> and the
  display name \<open>b\<close>.
\<close>

theorem display_name_final_segment_witness:
  "list_all (\<lambda>c. \<not> is_sep c) ''f'' \<and> ''f'' \<noteq> [] \<and>
   segments ''/a/b/'' = [''a'', ''b''] \<and> display_name ''/a/b/'' = Some ''b'' \<and>
   display_name ''f'' = Some ''f'' \<and>
   display_name (''/tmp'' @ ''/'' @ ''f'') = Some ''f'' \<and>
   notifications (calls (outcome_world (main [''rolexhound'', ''/tmp/f'']
     (example_env [ReadBytes (encode_event (example_record 2))] (\<lambda>i. Shown))))) =
     [(''f'', ''File modified.\<newline>'')] \<and>
   list_all (\<lambda>x. fst x = ''f'')
     (notifications (calls (outcome_world (main [''rolexhound'', ''/tmp/f'']
       (example_env [ReadBytes (encode_event (example_record 2))] (\<lambda>i. Shown))))))"
proof -
  let ?e = "example_env [ReadBytes (encode_event (example_record 2))] (\<lambda>i. Shown)"
  have s: "\<forall>c\<in>set ''f''. \<not> is_sep c" and n: "''f'' \<noteq> []"
    by (simp_all add: is_sep_def)
  note t = display_name_final_segment [where path = "''f''" and seg = "''f''"
      and pre = "''/tmp''" and argv = "[''rolexhound'', ''/tmp/f'']" and basePath = "''f''"
      and e = ?e and p = "''/a/b/''"]
  have a: "display_name ''f'' = Some ''f''"
    using t s by blast
  have b: "display_name (''/tmp'' @ ''/'' @ ''f'') = Some ''f''"
    using t s n by blast
  then have c: "\<forall>x\<in>set (notifications (calls (outcome_world
      (main [''rolexhound'', ''/tmp/f''] ?e)))). fst x = ''f''"
    using t by simp
  have d: "notifications (calls (outcome_world (main [''rolexhound'', ''/tmp/f''] ?e))) =
      [(''f'', ''File modified.\<newline>'')]"
    apply (simp add: main_def ex_defs display_name_def strtok_def is_sep_def Let_def
        ProgramTitle_def)
    apply (simp add: encode_event_def u32_bytes_def BUFFER_SIZE_def)
    apply (simp add: event_loop.simps watchEvent_at_def u32_at_def store_bytes_def
        BUFFER_SIZE_def classify_def flag_defs category_message_def world_defs
        SIZEOF_EVENT_def watch_flags_def)
    done
  have g: "segments ''/a/b/'' = [''a'', ''b'']"
    by (simp add: segments_def is_sep_def)
  then have h: "display_name ''/a/b/'' = Some ''b''"
    using t by simp
  show ?thesis
    using s n a b c d g h by (simp only: list_all_iff) blast
qed

section \<open>The walk over the buffer: claims C3 and C1\<close>

lemma scan_header:
  "e \<in> set (scan buffer n p) \<Longrightarrow> snd e = watchEvent_at buffer (fst e)"
proof (induction buffer n p rule: scan.induct)
  case (1 buffer readLength p)
  show ?case
  proof (cases "p < readLength")
    case False
    with "1.prems" show ?thesis
      by (simp add: scan.simps [of buffer readLength p])
  next
    case True
    let ?ev = "watchEvent_at buffer p"
    show ?thesis
    proof (cases "e = (p, ?ev)")
      case True
      then show ?thesis by simp
    next
      case False
      with "1.prems" True
      have "e \<in> set (scan buffer readLength (p + SIZEOF_EVENT + unat (len ?ev)))"
        by (simp add: scan.simps [of buffer readLength p])
      from "1.IH" [OF True this] show ?thesis .
    qed
  qed
qed

text \<open>
  C3: for a buffer that holds K well-formed records one after the other, the loop over
  the buffer ends and has seen exactly K headers, those of the K records in order; the
  lengths it has stepped over (header size plus declared name length) add up to the
  buffer length, and no header with its name reaches past the buffer length.
\<close>

theorem whole_records_decoded:
  assumes "\<forall>r\<in>set rs. well_formed r" and "length (encode_events rs) \<le> BUFFER_SIZE"
  shows "\<exists>es.
      events (event_loop snk bp (store_bytes (encode_events rs) buffer)
                (length (encode_events rs)) 0 w) = events w @ es \<and>
      length es = length rs \<and> map snd es = map header_of rs \<and>
      sum_list (map consumed es) = length (encode_events rs) \<and>
      (\<forall>e\<in>set es. fst e + consumed e \<le> length (encode_events rs))"
proof -
  let ?data = "encode_events rs"
  have sc: "scan (store_bytes ?data buffer) (length ?data) 0 = layout 0 rs"
    using scan_layout [of rs "[]" buffer] assms(1) by simp
  have "events (event_loop snk bp (store_bytes ?data buffer) (length ?data) 0 w)
      = events w @ layout 0 rs"
    by (simp add: event_loop_split sc notify_all_events)
  moreover have "\<forall>e\<in>set (layout 0 rs). fst e + consumed e \<le> length ?data"
    using extent_layout [OF assms(1), of _ 0] by auto
  ultimately show ?thesis
    using consumed_layout [OF assms(1), of 0]
    by (intro exI [of _ "layout 0 rs"]) (simp add: length_layout map_snd_layout)
qed

text \<open>
  C3, at an input: a buffer of two records without names, the first Modified and the
  second Created; the two headers are seen at the offsets 0 and 16.
\<close>

theorem whole_records_decoded_witness:
  "list_all well_formed [example_record 2, example_record 0x100] \<and>
   length (encode_events [example_record 2, example_record 0x100]) = 32 \<and>
   (\<exists>es.
      events (event_loop (\<lambda>i. Shown) ''f''
        (store_bytes (encode_events [example_record 2, example_record 0x100]) zero_buffer)
        32 0 world0) = es \<and>
      length es = 2 \<and>
      map snd es = [header_of (example_record 2), header_of (example_record 0x100)] \<and>
      sum_list (map consumed es) = 32 \<and> list_all (\<lambda>e. fst e + consumed e \<le> 32) es)"
proof -
  let ?rs = "[example_record 2, example_record 0x100]"
  have wf: "\<forall>r\<in>set ?rs. well_formed r"
    by (simp add: well_formed_def example_record_def)
  have len: "length (encode_events ?rs) = 32"
    by (simp add: encode_events_def length_encode_event SIZEOF_EVENT_def example_record_def)
  then have le: "length (encode_events ?rs) \<le> BUFFER_SIZE"
    by (simp add: BUFFER_SIZE_def)
  from whole_records_decoded [OF wf le, of "\<lambda>i. Shown" "''f''" zero_buffer world0]
  show ?thesis
    using wf len by (simp add: world0_def list_all_iff numeral_2_eq_2)
qed

text \<open>
  C1, as stated: when fewer bytes remain than a header, or than the declared name
  length, decoding fails with a truncation error and yields no record for the truncated
  tail. The code has no such check. With a buffer of one byte the loop runs to its end,
  having taken a header from the bytes beyond the buffer length (here a stale Modified
  flag at offset 4) and asked for a notification; with a buffer of one header that
  declares a name of 32 bytes and no name bytes the loop runs to its end, too, having
  stepped 48 bytes through a buffer of 16.
\<close>

theorem truncated_buffer_counterexample:
  "event_loop (\<lambda>i. Shown) ''f'' (store_bytes [1] (\<lambda>i. if i = 4 then 2 else 0)) 1 0 world0 =
     \<lparr>stdout = [], stderr = [],
      calls = [NotificationNew ''f'' ''File modified.\<newline>'' ''dialog-information'',
               NotificationSetUrgency, NotificationShow],
      events = [(0, \<lparr>wd = 1, mask_f = 2, cookie = 0, len = 0\<rparr>)], notified = 1\<rparr> \<and>
   event_loop (\<lambda>i. Shown) ''f''
     (store_bytes (u32_bytes 1 @ u32_bytes 2 @ u32_bytes 0 @ u32_bytes 32) zero_buffer) 16 0
     world0 =
     \<lparr>stdout = [], stderr = [],
      calls = [NotificationNew ''f'' ''File modified.\<newline>'' ''dialog-information'',
               NotificationSetUrgency, NotificationShow],
      events = [(0, \<lparr>wd = 1, mask_f = 2, cookie = 0, len = 32\<rparr>)], notified = 1\<rparr> \<and>
   consumed (0, \<lparr>wd = 1, mask_f = 2, cookie = 0, len = 32\<rparr>) = 48"
proof -
  have "event_loop (\<lambda>i. Shown) ''f'' (store_bytes [1] (\<lambda>i. if i = 4 then 2 else 0)) 1 0 world0 =
     \<lparr>stdout = [], stderr = [],
      calls = [NotificationNew ''f'' ''File modified.\<newline>'' ''dialog-information'',
               NotificationSetUrgency, NotificationShow],
      events = [(0, \<lparr>wd = 1, mask_f = 2, cookie = 0, len = 0\<rparr>)], notified = 1\<rparr>"
    by (simp add: event_loop.simps watchEvent_at_def u32_at_def store_bytes_def
        classify_def flag_defs category_message_def world_defs SIZEOF_EVENT_def)
  moreover have "event_loop (\<lambda>i. Shown) ''f''
     (store_bytes (u32_bytes 1 @ u32_bytes 2 @ u32_bytes 0 @ u32_bytes 32) zero_buffer) 16 0
     world0 =
     \<lparr>stdout = [], stderr = [],
      calls = [NotificationNew ''f'' ''File modified.\<newline>'' ''dialog-information'',
               NotificationSetUrgency, NotificationShow],
      events = [(0, \<lparr>wd = 1, mask_f = 2, cookie = 0, len = 32\<rparr>)], notified = 1\<rparr>"
    by (simp add: event_loop.simps watchEvent_at_def u32_at_def store_bytes_def u32_bytes_def
        classify_def flag_defs category_message_def world_defs SIZEOF_EVENT_def zero_buffer_def)
  moreover have "consumed (0, \<lparr>wd = 1, mask_f = 2, cookie = 0, len = 32\<rparr>) = 48"
    by (simp add: consumed_def SIZEOF_EVENT_def)
  ultimately show ?thesis
    by blast
qed

text \<open>
  C1, amended: the loop makes no truncation check and has no truncation error; on every
  buffer it runs to its end. The headers it sees are those of the walk \<open>scan\<close>: at a
  cursor position below the buffer length, also when fewer than 16 bytes or fewer bytes
  than the declared name length remain, it takes the 16 bytes at the cursor as the
  header of a record and goes on in the same way from the position 16 plus the declared
  name length further on; at a position not below the buffer length it stops. So every
  header it sees starts below the buffer length and is made of the 16 bytes found there.
  It reads these header bytes and nothing else, no name bytes: a buffer that differs
  elsewhere gives the same run. For a buffer of whole records no header with its name
  reaches past the buffer length.
\<close>

theorem event_loop_reads:
  "events (event_loop snk bp buffer readLength p w) = events w @ scan buffer readLength p \<and>
   (p < readLength \<longrightarrow>
      scan buffer readLength p =
        (p, watchEvent_at buffer p) #
        scan buffer readLength (p + SIZEOF_EVENT + unat (len (watchEvent_at buffer p))) \<and>
      (p, watchEvent_at buffer p) \<in> set (events (event_loop snk bp buffer readLength p w)) \<and>
      drop (length (events w)) (events (event_loop snk bp buffer readLength p w)) =
        (p, watchEvent_at buffer p) #
        drop (length (events v))
          (events (event_loop snk bp buffer readLength
             (p + SIZEOF_EVENT + unat (len (watchEvent_at buffer p))) v))) \<and>
   (\<not> p < readLength \<longrightarrow>
      scan buffer readLength p = [] \<and> event_loop snk bp buffer readLength p w = w) \<and>
   (\<forall>e\<in>set (scan buffer readLength p).
      p \<le> fst e \<and> fst e < readLength \<and> snd e = watchEvent_at buffer (fst e)) \<and>
   ((\<forall>e\<in>set (scan buffer readLength p).
       \<forall>i<SIZEOF_EVENT. buffer' (fst e + i) = buffer (fst e + i)) \<longrightarrow>
      event_loop snk bp buffer' readLength p w = event_loop snk bp buffer readLength p w) \<and>
   ((\<forall>r\<in>set rs. well_formed r) \<longrightarrow>
      (\<forall>e\<in>set (scan (store_bytes (encode_events rs) buffer) (length (encode_events rs)) 0).
         fst e + consumed e \<le> length (encode_events rs)))"
proof -
  have a: "events (event_loop snk bp buffer readLength p w) = events w @ scan buffer readLength p"
    for p w
    by (simp add: event_loop_split notify_all_events)
  have b: "scan buffer readLength p =
        (p, watchEvent_at buffer p) #
        scan buffer readLength (p + SIZEOF_EVENT + unat (len (watchEvent_at buffer p)))"
    if "p < readLength"
    using that by (simp add: scan.simps [of buffer readLength p])
  have b': "(p, watchEvent_at buffer p) \<in> set (events (event_loop snk bp buffer readLength p w))"
    if "p < readLength"
    using b [OF that] by (simp add: a)
  have b'': "drop (length (events w)) (events (event_loop snk bp buffer readLength p w)) =
        (p, watchEvent_at buffer p) #
        drop (length (events v))
          (events (event_loop snk bp buffer readLength
             (p + SIZEOF_EVENT + unat (len (watchEvent_at buffer p))) v))"
    if "p < readLength"
    using b [OF that] by (simp add: a)
  have c: "scan buffer readLength p = []" "event_loop snk bp buffer readLength p w = w"
    if "\<not> p < readLength"
    using that
    by (simp_all add: scan.simps [of buffer readLength p]
        event_loop.simps [of snk bp buffer readLength p w])
  have d: "\<forall>e\<in>set (scan buffer readLength p).
      p \<le> fst e \<and> fst e < readLength \<and> snd e = watchEvent_at buffer (fst e)"
    using scan_below [of _ buffer readLength p] scan_header [of _ buffer readLength p]
    by blast
  have e: "event_loop snk bp buffer' readLength p w = event_loop snk bp buffer readLength p w"
    if "\<forall>e\<in>set (scan buffer readLength p).
       \<forall>i<SIZEOF_EVENT. buffer' (fst e + i) = buffer (fst e + i)"
    using scan_frame [OF that] by (simp add: event_loop_split)
  have f: "\<forall>e\<in>set (scan (store_bytes (encode_events rs) buffer) (length (encode_events rs)) 0).
         fst e + consumed e \<le> length (encode_events rs)"
    if wf: "\<forall>r\<in>set rs. well_formed r"
  proof -
    have "scan (store_bytes (encode_events rs) buffer) (length (encode_events rs)) 0
        = layout 0 rs"
      using scan_layout [of rs "[]" buffer] wf by simp
    then show ?thesis
      using extent_layout [OF wf, of _ 0] by auto
  qed
  show ?thesis
    using a [of p w] b b' b'' c d e f by blast
qed

text \<open>
  C1, amended, at inputs. A buffer of one byte, with a stale Modified flag behind it: the
  cursor 0 is below the length 1, the header is taken from the bytes 0 to 15, and the
  next cursor, 16, stops the loop; a byte changed at offset 100 makes no difference. A
  buffer of one whole record: the header read at offset 0 ends at 16, the buffer length.
\<close>

theorem event_loop_reads_witness:
  "(0::nat) < 1 \<and> \<not> (16::nat) < 1 \<and>
   watchEvent_at (store_bytes [1] (\<lambda>i. if i = 4 then 2 else 0)) 0 =
     \<lparr>wd = 1, mask_f = 2, cookie = 0, len = 0\<rparr> \<and>
   scan (store_bytes [1] (\<lambda>i. if i = 4 then 2 else 0)) 1 0 =
     [(0, \<lparr>wd = 1, mask_f = 2, cookie = 0, len = 0\<rparr>)] \<and>
   events (event_loop (\<lambda>i. Shown) ''f'' (store_bytes [1] (\<lambda>i. if i = 4 then 2 else 0)) 1 0
     world0) = [(0, \<lparr>wd = 1, mask_f = 2, cookie = 0, len = 0\<rparr>)] \<and>
   event_loop (\<lambda>i. Shown) ''f''
     (store_bytes [1] (\<lambda>i. if i = 4 then 2 else if i = 100 then 7 else 0)) 1 0 world0 =
   event_loop (\<lambda>i. Shown) ''f'' (store_bytes [1] (\<lambda>i. if i = 4 then 2 else 0)) 1 0 world0 \<and>
   list_all well_formed [example_record 0x400] \<and>
   length (encode_events [example_record 0x400]) = 16 \<and>
   list_all (\<lambda>e. fst e + consumed e \<le> 16)
     (scan (store_bytes (encode_events [example_record 0x400]) zero_buffer) 16 0)"
proof -
  let ?b = "store_bytes [1] (\<lambda>i. if i = 4 then 2 else 0)"
  let ?b' = "store_bytes [1] (\<lambda>i. if i = 4 then 2 else if i = 100 then 7 else 0)"
  let ?ev = "\<lparr>wd = 1, mask_f = 2, cookie = 0, len = 0\<rparr>"
  let ?rs = "[example_record 0x400]"
  note t0 = event_loop_reads [where snk = "\<lambda>i. Shown" and bp = "''f''" and buffer = ?b
      and readLength = 1 and p = 0 and w = world0 and buffer' = ?b' and rs = ?rs
      and v = world0]
  note t16 = event_loop_reads [where snk = "\<lambda>i. Shown" and bp = "''f''" and buffer = ?b
      and readLength = 1 and p = 16 and w = world0 and buffer' = ?b' and rs = ?rs
      and v = world0]
  have ev: "watchEvent_at ?b 0 = ?ev"
    by (simp add: watchEvent_at_def u32_at_def store_bytes_def)
  have s16: "scan ?b 1 16 = []"
    using t16 by simp
  have nx: "0 + SIZEOF_EVENT + unat (len ?ev) = 16"
    by (simp add: SIZEOF_EVENT_def)
  have "scan ?b 1 0 =
      (0, watchEvent_at ?b 0) # scan ?b 1 (0 + SIZEOF_EVENT + unat (len (watchEvent_at ?b 0)))"
    using t0 zero_less_one [where 'a = nat] by blast
  then have s0: "scan ?b 1 0 = [(0, ?ev)]"
    by (simp only: ev nx s16)
  have "events (event_loop (\<lambda>i. Shown) ''f'' ?b 1 0 world0) = events world0 @ scan ?b 1 0"
    using t0 by blast
  then have e0: "events (event_loop (\<lambda>i. Shown) ''f'' ?b 1 0 world0) = [(0, ?ev)]"
    by (simp only: s0) (simp add: world0_def)
  have same: "\<forall>e\<in>set (scan ?b 1 0). \<forall>i<SIZEOF_EVENT. ?b' (fst e + i) = ?b (fst e + i)"
    unfolding s0 by (simp add: SIZEOF_EVENT_def store_bytes_def)
  have fr: "event_loop (\<lambda>i. Shown) ''f'' ?b' 1 0 world0 = event_loop (\<lambda>i. Shown) ''f'' ?b 1 0 world0"
    using t0 same by blast
  have wf: "\<forall>r\<in>set ?rs. well_formed r"
    by (simp add: well_formed_def example_record_def)
  have len: "length (encode_events ?rs) = 16"
    by (simp add: encode_events_def length_encode_event SIZEOF_EVENT_def example_record_def)
  have "\<forall>e\<in>set (scan (store_bytes (encode_events ?rs) zero_buffer)
      (length (encode_events ?rs)) 0). fst e + consumed e \<le> length (encode_events ?rs)"
    using event_loop_reads [where rs = ?rs and buffer = zero_buffer and v = world0
        and w = world0 and p = 0 and readLength = 1 and snk = "\<lambda>i. Shown" and bp = "''f''"
        and buffer' = zero_buffer] wf
    by blast
  then have ext: "list_all (\<lambda>e. fst e + consumed e \<le> 16)
      (scan (store_bytes (encode_events ?rs) zero_buffer) 16 0)"
    by (simp add: len list_all_iff)
  have wf': "list_all well_formed ?rs"
    using wf by (simp add: list_all_iff)
  show ?thesis
    using ev s0 e0 fr wf' len ext by simp
qed

section \<open>The notification sink: claim C8\<close>

lemma notify_one_stderr:
  "stderr (notify_one snk bp e w) =
     stderr w @ map (\<lambda>i. null_handle_line)
       (filter (\<lambda>i. snk i = NullHandle) [notified w..<notified (notify_one snk bp e w)])"
  by (simp add: notify_one_def world_defs Let_def null_handle_line_def
      split: option.splits sink_result.splits)

lemma notify_all_stderr:
  "stderr (notify_all snk bp es w) =
     stderr w @ map (\<lambda>i. null_handle_line)
       (filter (\<lambda>i. snk i = NullHandle) [notified w..<notified (notify_all snk bp es w)])"
proof (induction es arbitrary: w)
  case Nil
  then show ?case by simp
next
  case (Cons e es)
  let ?w1 = "notify_one snk bp e w"
  let ?N = "notified (notify_all snk bp es ?w1)"
  have le1: "notified w \<le> notified ?w1"
    by (simp add: notify_one_notified)
  have le2: "notified ?w1 \<le> ?N"
    by (simp add: notify_all_notified)
  have "[notified w..<?N] = [notified w..<notified ?w1] @ [notified ?w1..<?N]"
    using le1 le2 by (metis le_Suc_ex upt_add_eq_append)
  then show ?case
    by (simp add: Cons.IH [of ?w1] notify_one_stderr [of snk bp e w])
qed

lemma main_loop_sink_independent:
  assumes "stdout w = stdout v" and "events w = events v"
    and "notifications (calls w) = notifications (calls v)"
  shows "course (main_loop snk bp q rs buffer w) = course (main_loop snk' bp q rs buffer v)"
  using assms
proof (induction rs arbitrary: buffer w v)
  case Nil
  then show ?case
    by (simp add: course_def world_defs notifications_append)
next
  case (Cons r rs)
  let ?w1 = "do_call (Read q BUFFER_SIZE) (print_out ''Waiting for ievent...\<newline>'' w)"
  let ?v1 = "do_call (Read q BUFFER_SIZE) (print_out ''Waiting for ievent...\<newline>'' v)"
  have rel1: "stdout ?w1 = stdout ?v1" "events ?w1 = events ?v1"
    "notifications (calls ?w1) = notifications (calls ?v1)"
    using Cons.prems by (simp_all add: world_defs notifications_append)
  show ?case
  proof (cases r)
    case ReadError
    then show ?thesis
      using rel1 by (simp add: course_def Let_def print_err_def)
  next
    case (ReadBytes bytes)
    let ?data = "take BUFFER_SIZE bytes"
    let ?b = "store_bytes ?data buffer"
    let ?es = "scan ?b (length ?data) 0"
    have "course (main_loop snk bp q rs ?b (notify_all snk bp ?es ?w1)) =
        course (main_loop snk' bp q rs ?b (notify_all snk' bp ?es ?v1))"
      using rel1
      by (intro Cons.IH)
        (simp_all add: notify_all_stdout notify_all_events notify_all_notifications)
    then show ?thesis
      using ReadBytes by (simp add: Let_def event_loop_split)
  qed
qed

text \<open>
  C8, as stated: a failure of the sink is reported and never aborts the loop. The second
  half holds; the first holds for a null handle only. The value of
  \<open>notify_notification_show\<close> is thrown away and no error object is asked for, so when
  showing fails nothing is written: here every \<open>notify_notification_show\<close> fails, the
  record is Modified, and the error stream stays empty.
\<close>

theorem show_failure_unreported_counterexample:
  "event_loop (\<lambda>i. ShowFailed) ''f'' (store_bytes (encode_event (example_record 2)) zero_buffer)
     16 0 world0 =
     \<lparr>stdout = [], stderr = [],
      calls = [NotificationNew ''f'' ''File modified.\<newline>'' ''dialog-information'',
               NotificationSetUrgency, NotificationShow],
      events = [(0, \<lparr>wd = 1, mask_f = 2, cookie = 0, len = 0\<rparr>)], notified = 1\<rparr>"
  by (simp add: event_loop.simps watchEvent_at_def u32_at_def store_bytes_def u32_bytes_def
      encode_event_def example_record_def classify_def flag_defs
      category_message_def world_defs SIZEOF_EVENT_def zero_buffer_def)

text \<open>
  C8, amended: no answer of the sink aborts or redirects the watch loop. Whatever the
  sink answers, \<open>main\<close> ends the same way, prints the same on the output stream, sees
  the same headers in every buffer and asks for the same notifications. A null handle
  is reported: the loop over a buffer writes one line on the error stream for each null
  handle it gets, and nothing else. A failure to show a notification is not reported.
\<close>

theorem sink_failure_never_aborts:
  "course (main argv (e\<lparr>sink := snk'\<rparr>)) = course (main argv e) \<and>
   stderr (event_loop snk bp buffer readLength p w) =
     stderr w @ map (\<lambda>i. null_handle_line)
       (filter (\<lambda>i. snk i = NullHandle)
          [notified w..<notified (event_loop snk bp buffer readLength p w)])"
proof -
  have 1: "course (main argv (e\<lparr>sink := snk'\<rparr>)) = course (main argv e)"
    by (simp add: main_def Let_def split: option.splits)
      (auto intro!: main_loop_sink_independent)
  have 2: "stderr (event_loop snk bp buffer readLength p w) =
     stderr w @ map (\<lambda>i. null_handle_line)
       (filter (\<lambda>i. snk i = NullHandle)
          [notified w..<notified (event_loop snk bp buffer readLength p w)])"
    by (simp add: event_loop_split notify_all_stderr)
  show ?thesis
    using 1 2 by blast
qed

text \<open>
  C8, amended, at an input: a buffer of two Modified records and a sink that answers the
  first request with a null handle; the null handle is reported once and the second
  record is notified as usual.
\<close>

theorem sink_failure_never_aborts_witness:
  "event_loop (\<lambda>i. if i = 0 then NullHandle else Shown) ''f''
     (store_bytes (encode_events [example_record 2, example_record 2]) zero_buffer) 32 0 world0 =
     \<lparr>stdout = [], stderr = [null_handle_line],
      calls = [NotificationNew ''f'' ''File modified.\<newline>'' ''dialog-information'',
               NotificationNew ''f'' ''File modified.\<newline>'' ''dialog-information'',
               NotificationSetUrgency, NotificationShow],
      events = [(0, \<lparr>wd = 1, mask_f = 2, cookie = 0, len = 0\<rparr>),
                (16, \<lparr>wd = 1, mask_f = 2, cookie = 0, len = 0\<rparr>)], notified = 2\<rparr> \<and>
   [null_handle_line] = [] @ map (\<lambda>i. null_handle_line)
        (filter (\<lambda>i. (if i = 0 then NullHandle else Shown) = NullHandle) [0..<2])"
proof -
  let ?snk = "\<lambda>i::nat. if i = 0 then NullHandle else Shown"
  let ?b = "store_bytes (encode_events [example_record 2, example_record 2]) zero_buffer"
  let ?w = "\<lparr>stdout = [], stderr = [null_handle_line],
        calls = [NotificationNew ''f'' ''File modified.\<newline>'' ''dialog-information'',
                 NotificationNew ''f'' ''File modified.\<newline>'' ''dialog-information'',
                 NotificationSetUrgency, NotificationShow],
        events = [(0, \<lparr>wd = 1, mask_f = 2, cookie = 0, len = 0\<rparr>),
                  (16, \<lparr>wd = 1, mask_f = 2, cookie = 0, len = 0\<rparr>)], notified = 2\<rparr>"
  have run: "event_loop ?snk ''f'' ?b 32 0 world0 = ?w"
    by (simp add: event_loop.simps watchEvent_at_def u32_at_def store_bytes_def u32_bytes_def
        encode_events_def encode_event_def example_record_def classify_def
        flag_defs category_message_def world_defs SIZEOF_EVENT_def zero_buffer_def
        null_handle_line_def nth_append Let_def)
  from sink_failure_never_aborts [where snk = ?snk and bp = "''f''" and buffer = ?b
      and readLength = 32 and p = 0 and w = world0]
  have "stderr (event_loop ?snk ''f'' ?b 32 0 world0) =
      stderr world0 @ map (\<lambda>i. null_handle_line)
        (filter (\<lambda>i. ?snk i = NullHandle)
           [notified world0..<notified (event_loop ?snk ''f'' ?b 32 0 world0)])"
    by blast
  then have "[null_handle_line] = [] @ map (\<lambda>i. null_handle_line)
        (filter (\<lambda>i. ?snk i = NullHandle) [0..<2])"
    unfolding run by (simp add: world0_def)
  with run show ?thesis
    by blast
qed

section \<open>Failure of the read: claim C5\<close>

text \<open>
  C5, as stated: when the blocking read fails, the session is cleaned up (the watch
  registration and the queue are released) and the process exits with the read-error
  status. The exit and its status are as stated, but the code exits at once: in the run
  below, start-up succeeds and the first \<open>read\<close> fails; the calls made are those of the
  start-up and the \<open>read\<close>, and none of them releases anything.
\<close>

theorem read_failure_no_cleanup_counterexample:
  "main [''rolexhound'', ''/tmp/f''] (example_env [ReadError] (\<lambda>i. Shown)) =
     Exited 5
       \<lparr>stdout = [''Waiting for ievent...\<newline>''],
        stderr = [''Error reading from inotify event!\<newline>''],
        calls = [NotifyInit ''rolexhound'', InotifyInit, InotifyAddWatch 3 ''/tmp/f'' 0xB0B,
                 SignalHandler SIGABRT, SignalHandler SIGINT, SignalHandler SIGTERM,
                 Malloc 7, Read 3 4096],
        events = [], notified = 0\<rparr> \<and>
   filter is_release
     (calls (outcome_world (main [''rolexhound'', ''/tmp/f''] (example_env [ReadError] (\<lambda>i. Shown)))))
     = []"
proof -
  have "main [''rolexhound'', ''/tmp/f''] (example_env [ReadError] (\<lambda>i. Shown)) =
     Exited 5
       \<lparr>stdout = [''Waiting for ievent...\<newline>''],
        stderr = [''Error reading from inotify event!\<newline>''],
        calls = [NotifyInit ''rolexhound'', InotifyInit, InotifyAddWatch 3 ''/tmp/f'' 0xB0B,
                 SignalHandler SIGABRT, SignalHandler SIGINT, SignalHandler SIGTERM,
                 Malloc 7, Read 3 4096],
        events = [], notified = 0\<rparr>"
    by (simp add: main_def ex_defs display_name_def strtok_def is_sep_def Let_def
        ProgramTitle_def world_defs ext_defs BUFFER_SIZE_def watch_flags_def flag_defs)
  then show ?thesis
    by simp
qed

text \<open>
  C5, amended: when the blocking read of the event queue fails, the program prints a
  diagnostic on the error stream and exits with the read-error status, which differs
  from the six other statuses; it does so after any number of reads that returned. It
  calls neither
  \<open>inotify_rm_watch\<close> nor \<open>close\<close> nor \<open>notify_uninit\<close>: no run of \<open>main\<close> contains
  such a call, and the descriptors are left to the end of the process.
\<close>

theorem read_failure_exits:
  "main_loop snk bp q (ReadError # rs) buffer w =
     Exited EXT_ERR_READ_INOTIFY
       (print_err ''Error reading from inotify event!\<newline>''
          (do_call (Read q BUFFER_SIZE) (print_out ''Waiting for ievent...\<newline>'' w))) \<and>
   outcome_status (main_loop snk bp q (map ReadBytes bs @ ReadError # rs) buffer w)
      = Some EXT_ERR_READ_INOTIFY \<and>
   EXT_ERR_READ_INOTIFY \<notin> {EXT_SUCCESS, EXT_ERR_TOO_FEW_ARGS, EXT_ERR_INIT_INOTIFY,
     EXT_ERR_ADD_WATCH, EXT_ERR_BASE_PATH_NULL, EXT_ERR_INIT_LIBNOTIFY} \<and>
   filter is_release (calls (outcome_world (main argv e))) = []"
proof -
  have 1: "main_loop snk bp q (ReadError # rs) buffer w =
     Exited EXT_ERR_READ_INOTIFY
       (print_err ''Error reading from inotify event!\<newline>''
          (do_call (Read q BUFFER_SIZE) (print_out ''Waiting for ievent...\<newline>'' w)))"
    by (simp add: Let_def)
  have 2: "outcome_status (main_loop snk bp q (map ReadBytes bs @ ReadError # rs) buffer w)
      = Some EXT_ERR_READ_INOTIFY"
    by (induction bs arbitrary: buffer w) (simp_all add: Let_def)
  have 3: "EXT_ERR_READ_INOTIFY \<notin> {EXT_SUCCESS, EXT_ERR_TOO_FEW_ARGS, EXT_ERR_INIT_INOTIFY,
     EXT_ERR_ADD_WATCH, EXT_ERR_BASE_PATH_NULL, EXT_ERR_INIT_LIBNOTIFY}"
    by (simp add: ext_defs)
  have 4: "filter is_release (calls (outcome_world (main argv e))) = []"
    by (simp add: main_def Let_def main_loop_release split: option.splits)
      (simp add: world_defs)
  show ?thesis
    using 1 2 3 4 by blast
qed

section \<open>Shutdown: claim C4\<close>


















end
